theory Spec2Isabelle
  imports Complex_Main "HOL-Library.Word"
begin

unbundle bit_operations_syntax

section \<open>JavaScript primitives used by the time utilities\<close>

text \<open>
  The TypeScript type \<open>number\<close> is an IEEE 754 double; its integer values are modelled
  as \<open>int\<close>, and an operation that can leave the integers rounds as the double does
  (see the division below). The bitwise
  operators \<open>&\<close> and \<open>^\<close> first convert both operands to a signed 32-bit integer
  (\<open>ToInt32\<close>) and return the result read as a signed value.
\<close>

definition ToInt32 :: "int \<Rightarrow> 32 word" where
  "ToInt32 n = word_of_int n"

definition js_bitand :: "int \<Rightarrow> int \<Rightarrow> int" where
  "js_bitand a b = sint (ToInt32 a AND ToInt32 b)"

definition js_bitxor :: "int \<Rightarrow> int \<Rightarrow> int" where
  "js_bitxor a b = sint (ToInt32 a XOR ToInt32 b)"

text \<open>
  \<open>Math.floor(a / b)\<close> in \<open>formatNextRun\<close>, where the operands are a difference of Date
  time values and the number of milliseconds in an hour and the quotient is only compared
  with 24: the quotient rounded towards minus infinity, HOL's \<open>div\<close>. The operator \<open>%\<close>
  is exact on doubles and takes the sign of the dividend.
\<close>

definition js_floor_div :: "int \<Rightarrow> int \<Rightarrow> int" where
  "js_floor_div a b = a div b"

definition js_rem :: "int \<Rightarrow> int \<Rightarrow> int" where
  "js_rem a b = sgn a * (\<bar>a\<bar> mod \<bar>b\<bar>)"

subsection \<open>Division of doubles\<close>

text \<open>
  A Number is an IEEE 754 binary64 value. The quotient \<open>a / b\<close> of two integer-valued
  Numbers is the exact rational quotient rounded to the nearest double, ties to the even
  significand. \<open>binade x\<close> is the exponent \<open>e\<close> with \<open>2^e \<le> x < 2^(e+1)\<close> of a positive
  rational, \<open>ulp x\<close> the spacing of the doubles there (53 significant bits, subnormal below
  \<open>2^-1022\<close>), and \<open>toDouble\<close> the rounding. Overflow to Infinity, which needs a
  magnitude of \<open>2^1024\<close>, is outside the model.
\<close>

function bit_length :: "int \<Rightarrow> nat" where
  "bit_length n = (if n \<le> 0 then 0 else Suc (bit_length (n div 2)))"
  by pat_completeness auto
termination
  by (relation "measure nat") auto

declare bit_length.simps [simp del]

definition binade :: "rat \<Rightarrow> int" where
  "binade x = (if 1 \<le> x then int (bit_length \<lfloor>x\<rfloor>) - 1
               else - int (bit_length (\<lceil>1 / x\<rceil> - 1)))"

definition roundTiesToEven :: "rat \<Rightarrow> int" where
  "roundTiesToEven y =
     (let f = \<lfloor>y\<rfloor>; d = y - of_int f
      in if d < 1 / 2 then f
         else if 1 / 2 < d then f + 1
         else if even f then f else f + 1)"

definition ulp :: "rat \<Rightarrow> rat" where
  "ulp x = 2 powi (max (binade x) (- 1022) - 52)"

definition toDouble :: "rat \<Rightarrow> rat" where
  "toDouble x =
     (if x = 0 then 0
      else sgn x * (ulp \<bar>x\<bar> * of_int (roundTiesToEven (\<bar>x\<bar> / ulp \<bar>x\<bar>))))"

definition js_div :: "int \<Rightarrow> int \<Rightarrow> rat" where
  "js_div a b = toDouble (of_int a / of_int b)"

subsection \<open>Conversion of a Number to a string\<close>

text \<open>
  \<open>String(n)\<close> and template interpolation of an integer-valued Number \<open>n\<close>
  (ECMAScript \<open>Number::toString\<close>): the digits of the decimal number with the fewest
  significant digits that still rounds to \<open>n\<close> (the closest one if there are several, the
  even one on a tie), written in full below \<open>10^21\<close> and in exponential notation from
  there on. \<open>decimal\<close> is the decimal numeral of a non-negative integer;
  \<open>powers_of_ten 1 v\<close> lists the powers of ten up to \<open>v\<close>; \<open>shortest v\<close> tries them from
  the largest down, that is from one significant digit up, with the multiples of the power
  next to \<open>v\<close> as candidates.
\<close>

definition digit_char :: "nat \<Rightarrow> char" where
  "digit_char d = char_of (48 + d)"

function decimal :: "int \<Rightarrow> string" where
  "decimal n =
     (if n < 10 then [digit_char (nat n)]
      else decimal (n div 10) @ [digit_char (nat (n mod 10))])"
  by pat_completeness auto
termination
  by (relation "measure nat") auto

declare decimal.simps [simp del]

function powers_of_ten :: "int \<Rightarrow> int \<Rightarrow> int list" where
  "powers_of_ten p v = (if p \<le> 0 \<or> v < p then [] else p # powers_of_ten (10 * p) v)"
  by pat_completeness auto
termination
  by (relation "measure (\<lambda>(p, v). nat (v - p + 1))") auto

declare powers_of_ten.simps [simp del]

definition roundsTo :: "int \<Rightarrow> int \<Rightarrow> bool" where
  "roundsTo y v \<longleftrightarrow> toDouble (of_int y) = of_int v"

fun shortest :: "int \<Rightarrow> int list \<Rightarrow> int" where
  "shortest v [] = v"
| "shortest v (p # ps) =
     (let lo = (v div p) * p; hi = lo + p
      in if roundsTo lo v \<and> roundsTo hi v
         then (if v - lo < hi - v then lo
               else if hi - v < v - lo then hi
               else if even (v div p) then lo else hi)
         else if roundsTo lo v then lo
         else if roundsTo hi v then hi
         else shortest v ps)"

definition exponential :: "int \<Rightarrow> string" where
  "exponential y =
     (let ds = decimal y;
          sig = rev (dropWhile (\<lambda>c. c = CHR ''0'') (rev ds))
      in (if length sig = 1 then sig else hd sig # CHR ''.'' # tl sig)
         @ ''e+'' @ decimal (int (length ds) - 1))"

definition NumberToString :: "int \<Rightarrow> string" where
  "NumberToString v =
     (let y = shortest v (rev (powers_of_ten 1 v))
      in if y < 10 ^ 21 then decimal y else exponential y)"

definition js_String :: "int \<Rightarrow> string" where
  "js_String i = (if i < 0 then CHR ''-'' # NumberToString (- i) else NumberToString i)"

definition padStart :: "nat \<Rightarrow> char \<Rightarrow> string \<Rightarrow> string" where
  "padStart n c s = replicate (n - length s) c @ s"

text \<open>
  \<open>Number(s)\<close> is modelled on non-empty strings of decimal digits, the only arguments that
  a well-formed \<open>HH:MM\<close> produces. On every other string the model answers \<open>None\<close>: it
  makes no statement there.
\<close>

definition is_digit :: "char \<Rightarrow> bool" where
  "is_digit c \<longleftrightarrow> 48 \<le> (of_char c :: nat) \<and> (of_char c :: nat) \<le> 57"

definition digit_val :: "char \<Rightarrow> int" where
  "digit_val c = int (of_char c) - 48"

definition js_Number :: "string \<Rightarrow> int option" where
  "js_Number s =
     (if s \<noteq> [] \<and> list_all is_digit s
      then Some (foldl (\<lambda>acc c. 10 * acc + digit_val c) 0 s)
      else None)"

text \<open>\<open>s.split(c)\<close> for a one-character separator.\<close>

fun split_on :: "char \<Rightarrow> string \<Rightarrow> string list" where
  "split_on c [] = [] # []"
| "split_on c (x # xs) =
     (if x = c then [] # split_on c xs
      else (case split_on c xs of
              [] \<Rightarrow> [x] # []
            | y # ys \<Rightarrow> (x # y) # ys))"

text \<open>\<open>xs.join(sep)\<close>.\<close>

fun join :: "string \<Rightarrow> string list \<Rightarrow> string" where
  "join sep [] = []"
| "join sep [x] = x"
| "join sep (x # y # ys) = x @ sep @ join sep (y # ys)"

section \<open>The Date object\<close>

text \<open>
  A time value is a number of milliseconds since 1970-01-01T00:00Z. The viewer's time zone
  is the function \<open>LocalTZA\<close> of ECMAScript: the offset of local time from UTC, here in
  minutes, at a UTC time value (\<open>isUTC = True\<close>) or at a local time value
  (\<open>isUTC = False\<close>). The operations are those of the ECMAScript Date object on a valid
  time value; \<open>TimeClip\<close>, which only rejects time values beyond 8.64e15, is left out.
\<close>

type_synonym timezone = "int \<Rightarrow> bool \<Rightarrow> int"

definition msPerMinute :: int where "msPerMinute = 60000"
definition msPerHour :: int where "msPerHour = 3600000"
definition msPerDay :: int where "msPerDay = 86400000"

definition Day :: "int \<Rightarrow> int" where
  "Day t = t div msPerDay"

definition HourFromTime :: "int \<Rightarrow> int" where
  "HourFromTime t = (t div msPerHour) mod 24"

definition MinFromTime :: "int \<Rightarrow> int" where
  "MinFromTime t = (t div msPerMinute) mod 60"

definition MakeTime :: "int \<Rightarrow> int \<Rightarrow> int \<Rightarrow> int \<Rightarrow> int" where
  "MakeTime h m s ms = h * msPerHour + m * msPerMinute + s * 1000 + ms"

definition MakeDate :: "int \<Rightarrow> int \<Rightarrow> int" where
  "MakeDate day time = day * msPerDay + time"

definition LocalTime :: "timezone \<Rightarrow> int \<Rightarrow> int" where
  "LocalTime tz t = t + tz t True * msPerMinute"

definition UTC :: "timezone \<Rightarrow> int \<Rightarrow> int" where
  "UTC tz t = t - tz t False * msPerMinute"

definition setUTCHours :: "int \<Rightarrow> int \<Rightarrow> int \<Rightarrow> int \<Rightarrow> int \<Rightarrow> int" where
  "setUTCHours t h m s ms = MakeDate (Day t) (MakeTime h m s ms)"

definition setHours :: "timezone \<Rightarrow> int \<Rightarrow> int \<Rightarrow> int \<Rightarrow> int \<Rightarrow> int \<Rightarrow> int" where
  "setHours tz t h m s ms = UTC tz (MakeDate (Day (LocalTime tz t)) (MakeTime h m s ms))"

definition getHours :: "timezone \<Rightarrow> int \<Rightarrow> int" where
  "getHours tz t = HourFromTime (LocalTime tz t)"

definition getMinutes :: "timezone \<Rightarrow> int \<Rightarrow> int" where
  "getMinutes tz t = MinFromTime (LocalTime tz t)"

definition getUTCHours :: "int \<Rightarrow> int" where
  "getUTCHours t = HourFromTime t"

definition getUTCMinutes :: "int \<Rightarrow> int" where
  "getUTCMinutes t = MinFromTime t"

section \<open>timeUtils\<close>

text \<open>
  \<open>utcToLocal\<close> and \<open>localToUTC\<close> read the clock (\<open>new Date()\<close>) and the viewer's time
  zone; both are parameters here. The result is \<open>None\<close> when a component of the argument
  lies outside the modelled fragment of \<open>Number\<close>.
\<close>

definition utcToLocal :: "timezone \<Rightarrow> int \<Rightarrow> string \<Rightarrow> string option" where
  "utcToLocal tz now utcTime =
     (case map js_Number (split_on CHR '':'' utcTime) of
        Some hours # Some minutes # _ \<Rightarrow>
          (let utcDate = setUTCHours now hours minutes 0 0;
               localHours = getHours tz utcDate;
               localMinutes = getMinutes tz utcDate
           in Some (padStart 2 CHR ''0'' (js_String localHours) @ '':'' @
                    padStart 2 CHR ''0'' (js_String localMinutes)))
      | _ \<Rightarrow> None)"

definition localToUTC :: "timezone \<Rightarrow> int \<Rightarrow> string \<Rightarrow> string option" where
  "localToUTC tz now localTime =
     (case map js_Number (split_on CHR '':'' localTime) of
        Some hours # Some minutes # _ \<Rightarrow>
          (let localDate = setHours tz now hours minutes 0 0;
               utcHours = getUTCHours localDate;
               utcMinutes = getUTCMinutes localDate
           in Some (padStart 2 CHR ''0'' (js_String utcHours) @ '':'' @
                    padStart 2 CHR ''0'' (js_String utcMinutes)))
      | _ \<Rightarrow> None)"

definition formatDuration :: "int \<Rightarrow> string" where
  "formatDuration minutes =
     (let hours = \<lfloor>js_div minutes 60\<rfloor>;
          mins = js_rem minutes 60
      in if hours = 0 then js_String mins @ ''m''
         else if mins = 0 then js_String hours @ ''h''
         else js_String hours @ ''h '' @ js_String mins @ ''m'')"

text \<open>
  \<open>formatNextRun\<close> and \<open>formatEndTime\<close> take the Date parsed from their ISO string, and
  \<open>formatNextRun\<close> also the clock reading \<open>now\<close> of \<open>new Date()\<close>. A Date is its time
  value, \<open>None\<close> for an Invalid Date (time value \<open>NaN\<close>); arithmetic on \<open>NaN\<close> gives
  \<open>NaN\<close> and every comparison with \<open>NaN\<close> is false. The two locale renderings are calls
  into the browser's internationalisation API, so the model returns which call is made and
  on which Date: \<open>TimeOfDay\<close> for \<open>toLocaleTimeString\<close> with hour and minute,
  \<open>WeekdayAndTime\<close> for \<open>toLocaleString\<close> with short weekday, hour and minute.
\<close>

datatype rendering =
    TimeOfDay "int option"
  | WeekdayAndTime "int option"

definition js_lt :: "int option \<Rightarrow> int \<Rightarrow> bool" where
  "js_lt a b = (case a of None \<Rightarrow> False | Some x \<Rightarrow> x < b)"

definition formatNextRun :: "int \<Rightarrow> int option \<Rightarrow> rendering" where
  "formatNextRun now date =
     (let diffMs = map_option (\<lambda>t. t - now) date;
          diffHours = map_option (\<lambda>d. js_floor_div d (1000 * 60 * 60)) diffMs
      in if js_lt diffHours 24 then TimeOfDay date
         else WeekdayAndTime date)"

definition formatEndTime :: "int option \<Rightarrow> rendering" where
  "formatEndTime date = TimeOfDay date"

text \<open>
  \<open>DAYS\<close> is the source's array of labels and bit values; \<open>DAY_BITS\<close> lists the values
  of the source's object of the same name, Mon to Sun.
\<close>

definition DAYS :: "(string \<times> int) list" where
  "DAYS = [(''Mon'', 1), (''Tue'', 2), (''Wed'', 4), (''Thu'', 8),
           (''Fri'', 16), (''Sat'', 32), (''Sun'', 64)]"

definition DAY_BITS :: "int list" where
  "DAY_BITS = [1, 2, 4, 8, 16, 32, 64]"

definition isDayActive :: "int \<Rightarrow> int \<Rightarrow> bool" where
  "isDayActive bitfield dayBit \<longleftrightarrow> js_bitand bitfield dayBit \<noteq> 0"

definition toggleDay :: "int \<Rightarrow> int \<Rightarrow> int" where
  "toggleDay bitfield dayBit = js_bitxor bitfield dayBit"

definition formatDaysDescription :: "int \<Rightarrow> string" where
  "formatDaysDescription bitfield =
     (if bitfield = 127 then ''Every day''
      else if bitfield = 31 then ''Weekdays''
      else if bitfield = 96 then ''Weekends''
      else (let activeDays = filter (\<lambda>d. isDayActive bitfield (snd d)) DAYS
            in join '', '' (map fst activeDays)))"

text \<open>
  The description as the specification words it: the three named masks, and otherwise the
  labels of the days whose bit is set in the mask, Monday (bit 0) to Sunday (bit 6), joined
  by a comma and a space.
\<close>

definition day_labels :: "(string \<times> nat) list" where
  "day_labels = [(''Mon'', 0), (''Tue'', 1), (''Wed'', 2), (''Thu'', 3),
                 (''Fri'', 4), (''Sat'', 5), (''Sun'', 6)]"

definition formatDaysDescription_spec :: "int \<Rightarrow> string" where
  "formatDaysDescription_spec bitfield =
     (if bitfield = 127 then ''Every day''
      else if bitfield = 31 then ''Weekdays''
      else if bitfield = 96 then ''Weekends''
      else join '', '' (map fst (filter (\<lambda>d. bit bitfield (snd d)) day_labels)))"

text \<open>
  A well-formed \<open>HH:MM\<close>: two decimal digits, a colon, two decimal digits, the hour below
  24 and the minute below 60. \<open>HHMM a b c d\<close> is the string with the digits \<open>a\<close>,
  \<open>b\<close>, \<open>c\<close>, \<open>d\<close>.
\<close>

definition wellformed_HHMM :: "string \<Rightarrow> bool" where
  "wellformed_HHMM t =
     (case t of
        [h1, h2, c, m1, m2] \<Rightarrow>
          is_digit h1 \<and> is_digit h2 \<and> c = CHR '':'' \<and> is_digit m1 \<and> is_digit m2
          \<and> 10 * digit_val h1 + digit_val h2 < 24
          \<and> 10 * digit_val m1 + digit_val m2 < 60
      | _ \<Rightarrow> False)"

definition HHMM :: "nat \<Rightarrow> nat \<Rightarrow> nat \<Rightarrow> nat \<Rightarrow> string" where
  "HHMM a b c d = [digit_char a, digit_char b, CHR '':'', digit_char c, digit_char d]"

text \<open>
  An example of a time zone with daylight saving time: New York in 2024, five hours behind
  UTC, four from 2024-03-10T07:00Z to 2024-11-03T06:00Z. A local time value of the hour
  that the spring transition skips takes the offset before the transition, one of the hour
  that the autumn transition repeats takes the earlier instant.
\<close>

definition newYork2024 :: timezone where
  "newYork2024 t isUTC =
     (if isUTC
      then (if 1710054000000 \<le> t \<and> t < 1730613600000 then - 240 else - 300)
      else (if 1710054000000 - 240 * msPerMinute \<le> t \<and> t < 1730613600000 - 240 * msPerMinute
            then - 240 else - 300))"

section \<open>The schedule resolution engine\<close>

text \<open>
  The functions of this section are not among the source files: the component
  \<open>AgentControl\<close> only reads their result through the hook \<open>useNextScheduledRun\<close>. They
  are modelled from sections 3, 4.2 and 4.3 of the specification. Instants are time values
  in milliseconds since the epoch.
\<close>

text \<open>
  Modelled from the spec: the record \<open>Schedule\<close> of section 3, whose declaration is
  missing. \<open>start_time_utc\<close> is the pair (hour, minute).
\<close>

record schedule =
  schedule_id :: nat
  project_id :: nat
  days_of_week :: int
  start_time_utc :: "int \<times> int"
  duration_minutes :: int
  enabled :: bool

text \<open>
  Modelled from the spec: the derived record \<open>Occurrence\<close> of section 3 (start, end,
  source schedule), whose declaration is missing.
\<close>

record occurrence =
  occ_start :: int
  occ_end :: int
  source_schedule_id :: nat

text \<open>
  Modelled from the spec: the derived record \<open>ResolvedState\<close> of section 3, whose
  declaration is missing; an unset optional instant is \<open>None\<close>.
\<close>

record resolved_state =
  is_currently_running :: bool
  current_end :: "int option"
  next_start :: "int option"

text \<open>
  Modelled from the spec: the weekday of a calendar day, counted from Monday = 0 to
  Sunday = 6 as the bits of \<open>days_of_week\<close> are (section 3); the computation is missing.
  Day 0 of the epoch, 1970-01-01, is a Thursday.
\<close>

definition weekday_index :: "int \<Rightarrow> nat" where
  "weekday_index day = nat ((day + 3) mod 7)"

text \<open>
  Modelled from the spec: the weekday bit of a calendar day (step 1 of section 4.2), which
  is missing: Mon = 1, Tue = 2, up to Sun = 64.
\<close>

definition weekday_bit :: "int \<Rightarrow> int" where
  "weekday_bit day = 2 ^ weekday_index day"

text \<open>
  Modelled from the spec: steps 2 to 4 of the missing occurrence generator (section 4.2).
  The occurrence of a schedule on a calendar day starts on that date at
  \<open>start_time_utc\<close> and ends \<open>duration_minutes\<close> later in absolute time.
\<close>

definition occurrence_on :: "schedule \<Rightarrow> int \<Rightarrow> occurrence" where
  "occurrence_on s day =
     (let start = MakeDate day (MakeTime (fst (start_time_utc s)) (snd (start_time_utc s)) 0 0)
      in \<lparr>occ_start = start,
          occ_end = start + duration_minutes s * msPerMinute,
          source_schedule_id = schedule_id s\<rparr>)"

text \<open>
  Modelled from the spec: the missing occurrence generator \<open>generate\<close> of section 4.2. It
  visits the calendar days of the inclusive range from the reference date minus one day to
  the reference date plus seven days, skips a day whose weekday bit is not set in
  \<open>days_of_week\<close> (the test of \<open>isDayActive\<close>), and emits the occurrence of every other
  day. The section also calls these "the 7 calendar days"; the inclusive range it states
  has nine, and the range is what is followed here.
\<close>

definition generate :: "schedule \<Rightarrow> int \<Rightarrow> occurrence list" where
  "generate s referenceInstant =
     (let refDay = Day referenceInstant;
          days = map (\<lambda>k. refDay + k) [-1..7];
          active = filter (\<lambda>day. isDayActive (days_of_week s) (weekday_bit day)) days
      in map (occurrence_on s) active)"

text \<open>
  Modelled from the spec: "the maximum end among the matching occurrences" of step 2 of
  the missing resolver (section 4.3); \<open>None\<close> on the empty list.
\<close>

fun maximum :: "int list \<Rightarrow> int option" where
  "maximum [] = None"
| "maximum (x # xs) = (case maximum xs of None \<Rightarrow> Some x | Some m \<Rightarrow> Some (max x m))"

text \<open>
  Modelled from the spec: "the minimum start among all occurrences with start > now" of
  step 3 of the missing resolver (section 4.3); \<open>None\<close>, that is unset, on the empty list.
\<close>

fun minimum :: "int list \<Rightarrow> int option" where
  "minimum [] = None"
| "minimum (x # xs) = (case minimum xs of None \<Rightarrow> Some x | Some m \<Rightarrow> Some (min x m))"

text \<open>
  Modelled from the spec: step 1 of the missing resolver (section 4.3), the expansion. The
  generator runs over every enabled schedule with the reference instant \<open>now\<close> and the
  results are concatenated.
\<close>

definition expand :: "schedule list \<Rightarrow> int \<Rightarrow> occurrence list" where
  "expand schedules now = concat (map (\<lambda>s. generate s now) (filter enabled schedules))"

text \<open>
  Modelled from the spec: the test \<open>start \<le> now < end\<close> of step 2 of the missing
  resolver (section 4.3).
\<close>

definition covers :: "int \<Rightarrow> occurrence \<Rightarrow> bool" where
  "covers now oc \<longleftrightarrow> occ_start oc \<le> now \<and> now < occ_end oc"

text \<open>
  Modelled from the spec: the missing resolver \<open>resolve\<close> of section 4.3. If some
  occurrence covers \<open>now\<close>, a window is running, \<open>current_end\<close> is the maximum end of the
  covering occurrences and \<open>next_start\<close> is left unset. Otherwise nothing is running and
  \<open>next_start\<close> is the minimum start among the occurrences that start after \<open>now\<close>.
\<close>

definition resolve :: "schedule list \<Rightarrow> int \<Rightarrow> resolved_state" where
  "resolve schedules now =
     (let occs = expand schedules now;
          running = filter (covers now) occs
      in if running \<noteq> []
         then \<lparr>is_currently_running = True,
               current_end = maximum (map occ_end running),
               next_start = None\<rparr>
         else \<lparr>is_currently_running = False,
               current_end = None,
               next_start = minimum (map occ_start (filter (\<lambda>oc. now < occ_start oc) occs))\<rparr>)"

text \<open>
  The schedules of the specification's examples (section 8): Monday only, from 22:00 UTC
  for 600 minutes; and a second Monday-only schedule from 23:00 UTC for 420 minutes, whose
  window overlaps the first.
\<close>

definition monday_night :: schedule where
  "monday_night = \<lparr>schedule_id = 1, project_id = 1, days_of_week = 1,
     start_time_utc = (22, 0), duration_minutes = 600, enabled = True\<rparr>"

definition monday_late :: schedule where
  "monday_late = \<lparr>schedule_id = 2, project_id = 1, days_of_week = 1,
     start_time_utc = (23, 0), duration_minutes = 420, enabled = True\<rparr>"

section \<open>Integer division\<close>

lemma int_div_less_iff:
  fixes x b n :: int
  assumes "0 < b"
  shows "x div b < n \<longleftrightarrow> x < n * b"
proof
  have e: "b * (x div b) + x mod b = x" by (rule mult_div_mod_eq)
  assume "x div b < n"
  then have "x div b + 1 \<le> n" by simp
  then have "b * (x div b + 1) \<le> b * n" using assms by (intro mult_left_mono) auto
  then have "b * (x div b) + b \<le> n * b" by (simp add: algebra_simps)
  moreover have "x mod b < b" using assms by simp
  ultimately show "x < n * b" using e by linarith
next
  have e: "b * (x div b) + x mod b = x" by (rule mult_div_mod_eq)
  assume a: "x < n * b"
  show "x div b < n"
  proof (rule ccontr)
    assume "\<not> x div b < n"
    then have "n \<le> x div b" by simp
    then have "b * n \<le> b * (x div b)" using assms by (intro mult_left_mono) auto
    then have "n * b \<le> b * (x div b)" by (simp add: mult.commute)
    moreover have "0 \<le> x mod b" using assms by simp
    ultimately show False using a e by linarith
  qed
qed

section \<open>Bit operations on small non-negative numbers\<close>

lemma sint_ToInt32_small:
  "- (2 ^ 31) \<le> k \<Longrightarrow> k < 2 ^ 31 \<Longrightarrow> sint (ToInt32 k) = k"
  by (simp add: ToInt32_def sint_sbintrunc' signed_take_bit_int_eq_self)

lemma js_bitand_nonneg:
  assumes "0 \<le> a" "a < 2 ^ 31" "0 \<le> b"
  shows "js_bitand a b = a AND b"
proof -
  have lo: "0 \<le> a AND b" using assms by simp
  have hi: "a AND b \<le> a" using assms by (simp add: AND_upper1)
  have "- (2 ^ 31) \<le> a AND b" using lo by (rule order_trans[rotated]) simp
  moreover have "a AND b < 2 ^ 31" using hi assms(2) by simp
  ultimately have "sint (ToInt32 (a AND b)) = a AND b"
    by (rule sint_ToInt32_small)
  then show ?thesis
    by (simp add: js_bitand_def ToInt32_def word_wi_log_defs)
qed

lemma js_bitxor_nonneg:
  assumes "0 \<le> a" "a < 2 ^ n" "0 \<le> b" "b < 2 ^ n" "n \<le> 31"
  shows "js_bitxor a b = a XOR b"
proof -
  have lo: "0 \<le> a XOR b" using assms by simp
  have hi: "a XOR b < 2 ^ n" using assms by (simp add: XOR_upper)
  have "(2::int) ^ n \<le> 2 ^ 31" using assms(5) by (intro power_increasing) auto
  then have "a XOR b < 2 ^ 31" using hi by linarith
  moreover have "- (2 ^ 31) \<le> a XOR b" using lo by (rule order_trans[rotated]) simp
  ultimately have "sint (ToInt32 (a XOR b)) = a XOR b"
    by (intro sint_ToInt32_small)
  then show ?thesis
    by (simp add: js_bitxor_def ToInt32_def word_wi_log_defs)
qed

lemma isDayActive_bit:
  assumes "0 \<le> m" "m < 2 ^ 31"
  shows "isDayActive m (2 ^ i) \<longleftrightarrow> bit m i"
  using assms by (simp add: isDayActive_def js_bitand_nonneg and_exp_eq_0_iff_not_bit)

lemma DAY_BITS_power:
  assumes "b \<in> set DAY_BITS"
  obtains i :: nat where "b = 2 ^ i"
proof -
  from assms consider "b = 2 ^ 0" | "b = 2 ^ 1" | "b = 2 ^ 2" | "b = 2 ^ 3"
    | "b = 2 ^ 4" | "b = 2 ^ 5" | "b = 2 ^ 6"
    by (auto simp: DAY_BITS_def)
  then show thesis by cases (rule that, assumption)+
qed

lemma toggleDay_xor:
  assumes "0 \<le> m" "m \<le> 127" "b \<in> set DAY_BITS"
  shows "toggleDay m b = m XOR b" and "0 \<le> m XOR b" and "m XOR b < 2 ^ 7"
proof -
  have b: "0 \<le> b" "b < 2 ^ 7" using assms(3) by (auto simp: DAY_BITS_def)
  have m: "m < 2 ^ 7" using assms(2) by simp
  show "toggleDay m b = m XOR b"
    unfolding toggleDay_def using assms(1) m b by (intro js_bitxor_nonneg[where n=7]) auto
  show "m XOR b < 2 ^ 7" using assms(1) m b by (intro XOR_upper) auto
  show "0 \<le> m XOR b" using assms(1) b by simp
qed

section \<open>The day-of-week bitfield\<close>

text \<open>
  C5. For every mask \<open>m\<close> in 0..127 and every day bit \<open>b\<close> of \<open>DAY_BITS\<close>
  (1, 2, 4, 8, 16, 32, 64), toggling \<open>b\<close> in \<open>m\<close> changes the answer of
  \<open>isDayActive\<close> for \<open>b\<close>.
\<close>

theorem toggleDay_flips_isDayActive:
  assumes "0 \<le> m" "m \<le> 127" "b \<in> set DAY_BITS"
  shows "isDayActive (toggleDay m b) b \<noteq> isDayActive m b"
proof -
  obtain i where i: "b = 2 ^ i" using DAY_BITS_power[OF assms(3)] by blast
  note x = toggleDay_xor[OF assms]
  have "m XOR b < 2 ^ 31" using x(3) by simp
  then have "isDayActive (m XOR 2 ^ i) (2 ^ i) \<longleftrightarrow> bit (m XOR 2 ^ i) i"
    using x(2) unfolding i by (rule isDayActive_bit[rotated])
  also have "\<dots> \<longleftrightarrow> \<not> bit m i" by (simp add: bit_xor_iff bit_exp_iff)
  also have "\<dots> \<longleftrightarrow> \<not> isDayActive m (2 ^ i)"
    using isDayActive_bit[of m i] assms(1,2) by simp
  finally show ?thesis using x(1) i by simp
qed

theorem toggleDay_flips_isDayActive_witness:
  "(0::int) \<le> 5 \<and> (5::int) \<le> 127 \<and> 4 \<in> set DAY_BITS
     \<and> isDayActive (toggleDay 5 4) 4 \<noteq> isDayActive 5 4"
  using toggleDay_flips_isDayActive[of 5 4] by (simp add: DAY_BITS_def)

text \<open>
  C9. For every mask \<open>m\<close> in 0..127 and every day bit \<open>b\<close> of \<open>DAY_BITS\<close>,
  \<open>toggleDay m b\<close> is again in 0..127.
\<close>

theorem toggleDay_preserves_mask_range:
  assumes "0 \<le> m" "m \<le> 127" "b \<in> set DAY_BITS"
  shows "0 \<le> toggleDay m b \<and> toggleDay m b \<le> 127"
  using toggleDay_xor[OF assms] by simp

theorem toggleDay_preserves_mask_range_witness:
  "(0::int) \<le> 127 \<and> (127::int) \<le> 127 \<and> 64 \<in> set DAY_BITS
     \<and> 0 \<le> toggleDay 127 64 \<and> toggleDay 127 64 \<le> 127"
  using toggleDay_preserves_mask_range[of 127 64] by (simp add: DAY_BITS_def)

text \<open>
  C4. For every mask in 0..127, \<open>formatDaysDescription\<close> gives \<open>Every day\<close> for 127,
  \<open>Weekdays\<close> for 31, \<open>Weekends\<close> for 96, and for every other mask the labels of exactly
  the days whose bits are set, in the order Mon, Tue, Wed, Thu, Fri, Sat, Sun, joined by
  a comma and a space.
\<close>

theorem formatDaysDescription_refines:
  assumes "0 \<le> bitfield" "bitfield \<le> 127"
  shows "formatDaysDescription bitfield = formatDaysDescription_spec bitfield"
proof -
  have r: "0 \<le> bitfield" "bitfield < 2 ^ 31" using assms by auto
  have a: "isDayActive bitfield 1 = bit bitfield 0" "isDayActive bitfield 2 = bit bitfield 1"
    "isDayActive bitfield 4 = bit bitfield 2" "isDayActive bitfield 8 = bit bitfield 3"
    "isDayActive bitfield 16 = bit bitfield 4" "isDayActive bitfield 32 = bit bitfield 5"
    "isDayActive bitfield 64 = bit bitfield 6"
    using isDayActive_bit[OF r, of 0] isDayActive_bit[OF r, of 1] isDayActive_bit[OF r, of 2]
      isDayActive_bit[OF r, of 3] isDayActive_bit[OF r, of 4] isDayActive_bit[OF r, of 5]
      isDayActive_bit[OF r, of 6] by simp_all
  have "map fst (filter (\<lambda>d. isDayActive bitfield (snd d)) DAYS)
      = map fst (filter (\<lambda>d. bit bitfield (snd d)) day_labels)"
    by (simp add: DAYS_def day_labels_def a)
  then show ?thesis
    by (simp add: formatDaysDescription_def formatDaysDescription_spec_def)
qed

theorem formatDaysDescription_refines_witness:
  "(0::int) \<le> 21 \<and> (21::int) \<le> 127 \<and> formatDaysDescription 21 = ''Mon, Wed, Fri''"
proof -
  have "formatDaysDescription_spec 21 = ''Mon, Wed, Fri''" by code_simp
  then show ?thesis using formatDaysDescription_refines[of 21] by simp
qed

text \<open>
  C8. \<open>formatDaysDescription 0\<close> is the empty string: no day is active, so the list of
  labels is empty and joining it gives the string of length zero.
\<close>

theorem formatDaysDescription_zero: "formatDaysDescription 0 = []"
  by (simp add: formatDaysDescription_def DAYS_def isDayActive_def js_bitand_def ToInt32_def)

section \<open>Rounding to a double\<close>

lemma bit_length_bounds:
  "0 < n \<Longrightarrow> 2 ^ (bit_length n - 1) \<le> n \<and> n < 2 ^ bit_length n"
proof (induction n rule: bit_length.induct)
  case (1 n)
  show ?case
  proof (cases "n = 1")
    case True
    then show ?thesis by (simp add: bit_length.simps[of 1] bit_length.simps[of 0])
  next
    case False
    with "1.prems" have h: "0 < n div 2" by simp
    have n: "\<not> n \<le> 0" using "1.prems" by simp
    from "1.IH"[OF n h] have lo: "2 ^ (bit_length (n div 2) - 1) \<le> n div 2"
      and hi: "n div 2 < 2 ^ bit_length (n div 2)" by simp_all
    have pos: "0 < bit_length (n div 2)" using h by (simp add: bit_length.simps[of "n div 2"])
    have e: "bit_length n = Suc (bit_length (n div 2))" using n by (simp add: bit_length.simps[of n])
    have "2 * 2 ^ (bit_length (n div 2) - 1) \<le> 2 * (n div 2)" using lo by simp
    also have "\<dots> \<le> n" by simp
    finally have a: "2 ^ bit_length (n div 2) \<le> n"
      using pos by (cases "bit_length (n div 2)") simp_all
    have "n div 2 + 1 \<le> 2 ^ bit_length (n div 2)" using hi by simp
    then have "2 * (n div 2) + 2 \<le> 2 * 2 ^ bit_length (n div 2)" by simp
    moreover have "n < 2 * (n div 2) + 2" by presburger
    ultimately have b: "n < 2 ^ Suc (bit_length (n div 2))" by simp
    show ?thesis using a b by (simp add: e)
  qed
qed

lemma bit_length_le: "0 < n \<Longrightarrow> n < 2 ^ k \<Longrightarrow> bit_length n \<le> k"
proof (rule ccontr)
  assume n: "0 < n" "n < 2 ^ k" and "\<not> bit_length n \<le> k"
  then have "k \<le> bit_length n - 1" by simp
  then have "(2::int) ^ k \<le> 2 ^ (bit_length n - 1)" by (intro power_increasing) auto
  also have "\<dots> \<le> n" using bit_length_bounds[OF n(1)] by simp
  finally show False using n(2) by simp
qed

lemma bit_length_ge: "2 ^ k \<le> n \<Longrightarrow> k < bit_length n"
proof (rule ccontr)
  assume n: "2 ^ k \<le> n" and "\<not> k < bit_length n"
  then have "bit_length n \<le> k" by simp
  then have "(2::int) ^ bit_length n \<le> 2 ^ k" by (intro power_increasing) auto
  moreover have pos: "0 < n" using n(1) by (rule less_le_trans[rotated]) simp
  moreover have "n < 2 ^ bit_length n" using bit_length_bounds[OF pos] by simp
  ultimately show False using n(1) by linarith
qed

lemma roundTiesToEven_error: "\<bar>of_int (roundTiesToEven y) - y\<bar> \<le> 1 / 2"
proof -
  have "of_int \<lfloor>y\<rfloor> \<le> y" "y < of_int \<lfloor>y\<rfloor> + 1" by linarith+
  then show ?thesis by (auto simp: roundTiesToEven_def Let_def)
qed

lemma roundTiesToEven_of_int: "roundTiesToEven (of_int k) = k"
  by (simp add: roundTiesToEven_def)

lemma roundTiesToEven_ge_floor: "\<lfloor>y\<rfloor> \<le> roundTiesToEven y"
  by (simp add: roundTiesToEven_def Let_def)

lemma ulp_pos: "0 < ulp x"
  by (simp add: ulp_def)

lemma toDouble_pos:
  "0 < x \<Longrightarrow> toDouble x = ulp x * of_int (roundTiesToEven (x / ulp x))"
  by (simp add: toDouble_def)

lemma toDouble_error:
  assumes "0 < x"
  shows "\<bar>toDouble x - x\<bar> \<le> ulp x / 2"
proof -
  let ?u = "ulp x"
  have u: "0 < ?u" by (rule ulp_pos)
  have "toDouble x - x = ?u * (of_int (roundTiesToEven (x / ?u)) - x / ?u)"
    using u by (simp add: toDouble_pos[OF assms] algebra_simps)
  then have "\<bar>toDouble x - x\<bar> = ?u * \<bar>of_int (roundTiesToEven (x / ?u)) - x / ?u\<bar>"
    using u by (simp add: abs_mult)
  also have "\<dots> \<le> ?u * (1 / 2)"
    using u roundTiesToEven_error[of "x / ?u"] by (intro mult_left_mono) auto
  finally show ?thesis by simp
qed


lemma binade_le:
  assumes "0 < x" "x < 2 ^ k" "0 < k"
  shows "binade x \<le> int k - 1"
proof (cases "1 \<le> x")
  case True
  then have p: "0 < \<lfloor>x\<rfloor>" by simp
  have "\<lfloor>x\<rfloor> < 2 ^ k" using assms(2) by (simp add: floor_less_iff)
  then have "bit_length \<lfloor>x\<rfloor> \<le> k" using p by (intro bit_length_le)
  then show ?thesis using True by (simp add: binade_def)
next
  case False
  then have "binade x \<le> 0" by (simp add: binade_def)
  then show ?thesis using assms(3) by simp
qed

lemma binade_ge:
  assumes "2 ^ k \<le> x"
  shows "int k \<le> binade x" and "2 powi binade x \<le> x"
proof -
  have one: "1 \<le> x" using assms by (rule order_trans[rotated]) simp
  then have p: "0 < \<lfloor>x\<rfloor>" by simp
  have "(of_int (2 ^ k) :: rat) \<le> x" using assms by simp
  then have "2 ^ k \<le> \<lfloor>x\<rfloor>" by (simp only: le_floor_iff)
  then have "k < bit_length \<lfloor>x\<rfloor>" by (rule bit_length_ge)
  then show "int k \<le> binade x" using one by (simp add: binade_def)
  have "2 ^ (bit_length \<lfloor>x\<rfloor> - 1) \<le> \<lfloor>x\<rfloor>" using bit_length_bounds[OF p] by simp
  then have "(of_int (2 ^ (bit_length \<lfloor>x\<rfloor> - 1)) :: rat) \<le> of_int \<lfloor>x\<rfloor>"
    by (simp only: of_int_le_iff)
  also have "\<dots> \<le> x" by simp
  finally have "(2::rat) ^ (bit_length \<lfloor>x\<rfloor> - 1) \<le> x" by simp
  moreover have "binade x = int (bit_length \<lfloor>x\<rfloor> - 1)"
    using one \<open>k < bit_length \<lfloor>x\<rfloor>\<close> by (simp add: binade_def)
  ultimately show "2 powi binade x \<le> x" by (simp add: power_int_of_nat)
qed

lemma toDouble_near:
  assumes "0 < x" "x < 2 ^ 48"
  shows "\<bar>toDouble x - x\<bar> \<le> 1 / 64"
proof -
  have "binade x \<le> 47" using binade_le[OF assms(1,2)] by simp
  then have "max (binade x) (- 1022) - 52 \<le> - 5" by simp
  then have "ulp x \<le> 2 powi (- 5)" unfolding ulp_def by (intro power_int_increasing) auto
  then have "ulp x / 2 \<le> 1 / 64" by simp
  then show ?thesis using toDouble_error[OF assms(1)] by linarith
qed

lemma toDouble_of_int:
  assumes "0 \<le> q" "q < 2 ^ 53"
  shows "toDouble (of_int q) = of_int q"
proof (cases "q = 0")
  case True
  then show ?thesis by (simp add: toDouble_def)
next
  case False
  with assms have pos: "1 \<le> q" by simp
  define x :: rat where "x = of_int q"
  have x0: "0 < x" using pos by (simp add: x_def)
  have "x < of_int (2 ^ 53)" unfolding x_def using assms(2) by (simp only: of_int_less_iff)
  then have x53: "x < 2 ^ 53" by simp
  have x1: "2 ^ 0 \<le> x" using pos by (simp add: x_def)
  have hi: "binade x \<le> 52" using binade_le[OF x0 x53] by simp
  have lo: "0 \<le> binade x" using binade_ge(1)[OF x1] by simp
  define e where "e = nat (52 - binade x)"
  have "max (binade x) (- 1022) - 52 = - int e" using hi lo by (simp add: e_def)
  then have "ulp x = 2 powi (- int e)" by (simp only: ulp_def)
  also have "\<dots> = inverse (2 powi int e)" by (rule power_int_minus)
  also have "\<dots> = inverse (2 ^ e)" by (simp only: power_int_of_nat)
  finally have u: "ulp x = inverse (2 ^ e)" .
  have "x / ulp x = of_int (q * 2 ^ e)" unfolding u by (simp add: x_def divide_inverse)
  then have r: "roundTiesToEven (x / ulp x) = q * 2 ^ e"
    by (simp only: roundTiesToEven_of_int)
  have "toDouble x = ulp x * of_int (q * 2 ^ e)" by (simp only: toDouble_pos[OF x0] r)
  also have "\<dots> = inverse (2 ^ e) * of_int (q * 2 ^ e)" by (simp only: u)
  also have "\<dots> = of_int q" by simp
  finally show ?thesis by (simp only: x_def)
qed

lemma toDouble_large:
  assumes "2 ^ 53 \<le> x"
  shows "2 ^ 53 \<le> toDouble x"
proof -
  have pos: "0 < x" using assms by (rule less_le_trans[rotated]) simp
  have e: "53 \<le> binade x" and b: "2 powi binade x \<le> x" using binade_ge[OF assms] by simp_all
  define n where "n = nat (binade x - 52)"
  have m: "max (binade x) (- 1022) - 52 = int n" using e by (simp add: n_def)
  have u: "ulp x = 2 ^ n" by (simp add: ulp_def m power_int_of_nat)
  have bx: "binade x = int (n + 52)" using e by (simp add: n_def)
  have "(2::rat) ^ (n + 52) \<le> x" using b unfolding bx by (simp only: power_int_of_nat)
  then have "(2::rat) ^ 52 \<le> x / ulp x" by (simp add: u power_add field_simps)
  then have "(of_int (2 ^ 52) :: rat) \<le> x / ulp x" by simp
  then have "2 ^ 52 \<le> \<lfloor>x / ulp x\<rfloor>" by (simp only: le_floor_iff)
  then have "2 ^ 52 \<le> roundTiesToEven (x / ulp x)"
    using roundTiesToEven_ge_floor[of "x / ulp x"] by linarith
  then have "(of_int (2 ^ 52) :: rat) \<le> of_int (roundTiesToEven (x / ulp x))"
    by (simp only: of_int_le_iff)
  then have A: "(2::rat) ^ n * 2 ^ 52 \<le> 2 ^ n * of_int (roundTiesToEven (x / ulp x))"
    by (intro mult_left_mono) auto
  have B: "(2::rat) ^ 53 \<le> 2 ^ n * 2 ^ 52"
  proof -
    have "1 \<le> n" using e by (simp add: n_def)
    then have "(2::rat) ^ 1 \<le> 2 ^ n" by (intro power_increasing) auto
    then show ?thesis by simp
  qed
  have "toDouble x = 2 ^ n * of_int (roundTiesToEven (x / ulp x))"
    by (simp only: toDouble_pos[OF pos] u)
  then show ?thesis using order_trans[OF B A] by (simp only:)
qed

lemma floor_js_div_60:
  assumes "0 < m" "m < 60 * 2 ^ 48"
  shows "\<lfloor>js_div m 60\<rfloor> = m div 60"
proof -
  define q r where "q = m div 60" and "r = m mod 60"
  define x :: rat where "x = of_int m / 60"
  have m: "m = 60 * q + r" by (simp add: q_def r_def)
  have r: "0 \<le> r" "r \<le> 59" using pos_mod_bound[of 60 m] by (simp_all add: r_def)
  have q: "0 \<le> q" "q < 2 ^ 48" using assms r unfolding m by simp_all
  have "(of_int m :: rat) = of_int (60 * q + r)" by (simp only: m[symmetric])
  also have "\<dots> = 60 * of_int q + of_int r" by (simp only: of_int_add of_int_mult of_int_numeral)
  finally have xe: "x = of_int q + of_int r / 60" by (simp add: x_def)
  have x0: "0 < x" using assms(1) by (simp add: x_def)
  have "q + 1 \<le> 2 ^ 48" using q(2) by simp
  then have "(of_int (q + 1) :: rat) \<le> of_int (2 ^ 48)" by (simp only: of_int_le_iff)
  then have "(of_int q :: rat) + 1 \<le> 2 ^ 48" by simp
  moreover have rr: "(0::rat) \<le> of_int r" "(of_int r :: rat) \<le> 59"
    using r by simp_all
  ultimately have x48: "x < 2 ^ 48" unfolding xe by linarith
  have q53: "q < 2 ^ 53" using q(2) by simp
  have jd: "js_div m 60 = toDouble x" by (simp add: js_div_def x_def)
  show ?thesis
  proof (cases "r = 0")
    case True
    then have "x = of_int q" using xe by simp
    then have "toDouble x = of_int q" using toDouble_of_int[OF q(1) q53] by simp
    then show ?thesis unfolding jd by (simp add: q_def)
  next
    case False
    then have "1 \<le> r" using r(1) by simp
    then have r1: "(1::rat) \<le> of_int r" by simp
    have f: "(1::rat) / 60 \<le> of_int r / 60" "(of_int r :: rat) / 60 \<le> 59 / 60"
      using r1 rr(2) by linarith+
    have near: "\<bar>toDouble x - x\<bar> \<le> 1 / 64" using toDouble_near[OF x0 x48] .
    have lo: "of_int q \<le> toDouble x" using near f(1) unfolding xe by linarith
    have hi: "toDouble x < of_int q + 1" using near f(2) unfolding xe by linarith
    have "\<lfloor>toDouble x\<rfloor> = q" using lo hi by (simp add: floor_unique)
    then show ?thesis unfolding jd by (simp add: q_def)
  qed
qed

lemma roundsTo_safe:
  assumes "0 \<le> v" "v < 2 ^ 53" "0 \<le> y" "roundsTo y v"
  shows "y = v"
proof (cases "y < 2 ^ 53")
  case True
  then have "toDouble (of_int y) = of_int y" using assms(3) by (intro toDouble_of_int)
  then have "(of_int y :: rat) = of_int v" using assms(4) by (simp add: roundsTo_def)
  then show ?thesis by simp
next
  case False
  then have "2 ^ 53 \<le> y" by simp
  then have "(of_int (2 ^ 53) :: rat) \<le> of_int y" by (simp only: of_int_le_iff)
  then have "(2::rat) ^ 53 \<le> of_int y" by simp
  then have "(2::rat) ^ 53 \<le> toDouble (of_int y)" by (rule toDouble_large)
  then have "(of_int (2 ^ 53) :: rat) \<le> of_int v" using assms(4) by (simp add: roundsTo_def)
  then have "2 ^ 53 \<le> v" by (simp only: of_int_le_iff)
  then show ?thesis using assms(2) by simp
qed

lemma roundsTo_self: "0 \<le> v \<Longrightarrow> v < 2 ^ 53 \<Longrightarrow> roundsTo v v"
  by (simp add: roundsTo_def toDouble_of_int)

lemma shortest_safe:
  assumes "0 \<le> v" "v < 2 ^ 53" "\<forall>p \<in> set ps. 0 < p"
  shows "shortest v ps = v"
  using assms(3)
proof (induction ps)
  case Nil
  then show ?case by simp
next
  case (Cons p ps)
  then have p: "0 < p" and ih: "shortest v ps = v" by simp_all
  define lo where "lo = (v div p) * p"
  have lo0: "0 \<le> lo" using assms(1) p by (simp add: lo_def pos_imp_zdiv_nonneg_iff)
  have hi0: "0 \<le> lo + p" using lo0 p by simp
  have hiv: "v < lo + p"
  proof -
    have "v = lo + v mod p" by (simp add: lo_def)
    moreover have "v mod p < p" using p by simp
    ultimately show ?thesis by linarith
  qed
  have nhi: "\<not> roundsTo (lo + p) v"
    using roundsTo_safe[OF assms(1,2) hi0] hiv by auto
  have lov: "roundsTo lo v \<Longrightarrow> lo = v"
    using roundsTo_safe[OF assms(1,2) lo0] by auto
  show ?case using nhi lov ih by (auto simp: Let_def lo_def[symmetric])
qed

lemma powers_of_ten_pos: "0 < p \<Longrightarrow> \<forall>x \<in> set (powers_of_ten p v). 0 < x"
proof (induction p v rule: powers_of_ten.induct)
  case (1 p v)
  show ?case
  proof (cases "p \<le> 0 \<or> v < p")
    case True
    then show ?thesis by (simp add: powers_of_ten.simps[of p v])
  next
    case False
    moreover have "0 < 10 * p" using "1.prems" by simp
    ultimately have "\<forall>x \<in> set (powers_of_ten (10 * p) v). 0 < x" using "1.IH" by blast
    then show ?thesis using False "1.prems" by (simp add: powers_of_ten.simps[of p v])
  qed
qed

lemma js_String_safe:
  assumes "0 \<le> v" "v < 2 ^ 53"
  shows "js_String v = decimal v"
proof -
  have "\<forall>p \<in> set (rev (powers_of_ten 1 v)). 0 < p" using powers_of_ten_pos[of 1 v] by simp
  then have "shortest v (rev (powers_of_ten 1 v)) = v" by (rule shortest_safe[OF assms])
  moreover have "v < 10 ^ 21" using assms(2) by simp
  ultimately show ?thesis using assms(1) by (simp add: js_String_def NumberToString_def)
qed

section \<open>Durations\<close>

lemma js_rem_nonneg: "0 \<le> a \<Longrightarrow> 0 < b \<Longrightarrow> js_rem a b = a mod b"
  by (simp add: js_rem_def sgn_if)

text \<open>
  C3. For every positive integer number of minutes below \<open>60 * 2^48\<close> (16888498602639360),
  \<open>formatDuration\<close> renders \<open>hours = minutes div 60\<close> and \<open>mins = minutes mod 60\<close> in
  decimal as \<open><mins>m\<close> when \<open>hours = 0\<close>, as \<open><hours>h\<close> when \<open>mins = 0\<close>, and as
  \<open><hours>h <mins>m\<close> otherwise; 240 gives \<open>4h\<close>, 90 gives \<open>1h 30m\<close>, 30 gives \<open>30m\<close>.
  Beyond the bound the division and the conversion to a string round: at \<open>10^21\<close>
  minutes the hours are 16666666666666666666, and the code renders
  \<open>16666666666666666000h 40m\<close>.
\<close>

theorem formatDuration_renders:
  "(0 < minutes \<and> minutes < 60 * 2 ^ 48 \<longrightarrow> formatDuration minutes =
      (let hours = minutes div 60; mins = minutes mod 60
       in if hours = 0 then decimal mins @ ''m''
          else if mins = 0 then decimal hours @ ''h''
          else decimal hours @ ''h '' @ decimal mins @ ''m''))
   \<and> formatDuration 240 = ''4h''
   \<and> formatDuration 90 = ''1h 30m''
   \<and> formatDuration 30 = ''30m''"
proof -
  have c: "formatDuration 240 = ''4h''" "formatDuration 90 = ''1h 30m''"
    "formatDuration 30 = ''30m''"
    by code_simp+
  have "formatDuration minutes =
      (let hours = minutes div 60; mins = minutes mod 60
       in if hours = 0 then decimal mins @ ''m''
          else if mins = 0 then decimal hours @ ''h''
          else decimal hours @ ''h '' @ decimal mins @ ''m'')"
    if pos: "0 < minutes" and bound: "minutes < 60 * 2 ^ 48"
  proof -
    define hours mins where "hours = minutes div 60" and "mins = minutes mod 60"
    have fl: "\<lfloor>js_div minutes 60\<rfloor> = hours"
      unfolding hours_def using pos bound by (rule floor_js_div_60)
    have rem: "js_rem minutes 60 = mins"
      unfolding mins_def using pos by (simp add: js_rem_nonneg)
    have m: "0 \<le> mins" "mins < 2 ^ 53"
      using pos_mod_bound[of 60 minutes] by (simp_all add: mins_def)
    have "hours < 2 ^ 48"
      unfolding hours_def using bound int_div_less_iff[of 60 minutes "2 ^ 48"] by simp
    then have h: "0 \<le> hours" "hours < 2 ^ 53"
      using pos by (simp_all add: hours_def pos_imp_zdiv_nonneg_iff)
    have s: "js_String hours = decimal hours" "js_String mins = decimal mins"
      using js_String_safe[OF h] js_String_safe[OF m] by simp_all
    show ?thesis
      unfolding formatDuration_def Let_def fl rem s
      by (simp only: hours_def mins_def)
  qed
  then show ?thesis using c by blast
qed

theorem formatDuration_renders_witness:
  "(0::int) < 135 \<and> (135::int) < 60 * 2 ^ 48 \<and> formatDuration 135 = ''2h 15m''"
proof -
  have "decimal 2 @ ''h '' @ decimal 15 @ ''m'' = ''2h 15m''" by code_simp
  then show ?thesis using formatDuration_renders[of 135] by simp
qed

text \<open>
  C3, counterexample to the unbounded statement: \<open>10^21\<close> is a positive integer and a
  double; its quotient by 60 is 16666666666666666666 with remainder 40, and the code does
  not render that quotient.
\<close>

theorem formatDuration_large_counterexample:
  "(0::int) < 1000000000000000000000
   \<and> 1000000000000000000000 div 60 = (16666666666666666666::int)
   \<and> 1000000000000000000000 mod 60 = (40::int)
   \<and> decimal 16666666666666666666 @ ''h '' @ decimal 40 @ ''m'' = ''16666666666666666666h 40m''
   \<and> formatDuration 1000000000000000000000 = ''16666666666666666000h 40m''
   \<and> formatDuration 1000000000000000000000
        \<noteq> decimal 16666666666666666666 @ ''h '' @ decimal 40 @ ''m''"
proof -
  have a: "decimal 16666666666666666666 @ ''h '' @ decimal 40 @ ''m''
         = ''16666666666666666666h 40m''"
    by code_simp
  have b: "formatDuration 1000000000000000000000 = ''16666666666666666000h 40m''"
    by code_simp
  show ?thesis unfolding a b by simp
qed

section \<open>Next-run rendering\<close>

lemma formatNextRun_Some:
  "formatNextRun now (Some t) =
     (if t - now < 24 * msPerHour then TimeOfDay (Some t) else WeekdayAndTime (Some t))"
  using int_div_less_iff[of 3600000 "t - now" 24]
  by (simp add: formatNextRun_def js_lt_def js_floor_div_def msPerHour_def)

text \<open>
  C7. For every instant \<open>t\<close> and every moment of formatting \<open>now\<close>, \<open>formatNextRun\<close>
  renders the time of day only when \<open>t\<close> is less than 24 hours after \<open>now\<close>, and the short
  weekday with the time of day when \<open>t\<close> is 24 hours or more after \<open>now\<close>.
\<close>

theorem formatNextRun_threshold:
  "(t - now < 24 * msPerHour \<longrightarrow> formatNextRun now (Some t) = TimeOfDay (Some t))
   \<and> (24 * msPerHour \<le> t - now \<longrightarrow> formatNextRun now (Some t) = WeekdayAndTime (Some t))"
  by (simp add: formatNextRun_Some)

theorem formatNextRun_threshold_witness:
  "86399999 - 0 < 24 * msPerHour
   \<and> formatNextRun 0 (Some 86399999) = TimeOfDay (Some 86399999)
   \<and> 24 * msPerHour \<le> 86400000 - 0
   \<and> formatNextRun 0 (Some 86400000) = WeekdayAndTime (Some 86400000)"
  using formatNextRun_threshold[of 86399999 0] formatNextRun_threshold[of 86400000 0]
  by (simp add: msPerHour_def)

text \<open>
  C10. For every instant \<open>t\<close> at or before the moment of formatting, the floored hour
  difference is at most zero, hence below 24, and \<open>formatNextRun\<close> renders the time of day
  only.
\<close>

theorem formatNextRun_past_instant:
  assumes "t \<le> now"
  shows "js_floor_div (t - now) (1000 * 60 * 60) \<le> 0
         \<and> formatNextRun now (Some t) = TimeOfDay (Some t)"
proof -
  have "(t - now) div 3600000 < 1" using assms int_div_less_iff[of 3600000 "t - now" 1] by simp
  then have "js_floor_div (t - now) (1000 * 60 * 60) \<le> 0" by (simp add: js_floor_div_def)
  moreover have "t - now < 24 * msPerHour" using assms by (simp add: msPerHour_def)
  ultimately show ?thesis by (simp add: formatNextRun_Some)
qed

theorem formatNextRun_past_instant_witness:
  "(1000::int) \<le> 5000
   \<and> js_floor_div (1000 - 5000) (1000 * 60 * 60) \<le> 0
   \<and> formatNextRun 5000 (Some 1000) = TimeOfDay (Some 1000)"
  using formatNextRun_past_instant[of 1000 5000] by simp

section \<open>Conversion between UTC and local wall-clock time\<close>

lemma of_char_digit_char: "d < 10 \<Longrightarrow> (of_char (digit_char d) :: nat) = 48 + d"
  by (simp add: digit_char_def)

lemma is_digit_digit_char: "d < 10 \<Longrightarrow> is_digit (digit_char d)"
  by (simp add: is_digit_def of_char_digit_char)

lemma digit_val_digit_char: "d < 10 \<Longrightarrow> digit_val (digit_char d) = int d"
  by (simp add: digit_val_def of_char_digit_char)

lemma digit_char_not_colon: "d < 10 \<Longrightarrow> digit_char d \<noteq> CHR '':''"
proof
  assume "d < 10" "digit_char d = CHR '':''"
  then have "(of_char (digit_char d) :: nat) = of_char CHR '':''" by simp
  then show False using \<open>d < 10\<close> by (simp add: of_char_digit_char)
qed

lemma is_digit_obtain:
  assumes "is_digit a"
  obtains d where "d < 10" "a = digit_char d"
proof
  let ?d = "(of_char a :: nat) - 48"
  show "?d < 10" using assms by (auto simp: is_digit_def)
  have "48 + ?d = of_char a" using assms by (auto simp: is_digit_def)
  then show "a = digit_char ?d" by (simp add: digit_char_def)
qed

lemma digit_char_0: "digit_char 0 = CHR ''0''"
  by code_simp

lemma decimal_digit: "d < 10 \<Longrightarrow> decimal (int d) = [digit_char d]"
  by (simp add: decimal.simps[of "int d"])

lemma render_two_digits:
  assumes "a < 10" "b < 10"
  shows "padStart 2 CHR ''0'' (js_String (int (10 * a + b))) = [digit_char a, digit_char b]"
proof -
  define n where "n = int (10 * a + b)"
  have n: "0 \<le> n" "n < 100" using assms by (simp_all add: n_def)
  then have "n < 2 ^ 53" by simp
  then have s: "js_String n = decimal n" using n(1) by (intro js_String_safe)
  show ?thesis
  proof (cases "a = 0")
    case True
    then have "decimal n = [digit_char b]" using assms(2) by (simp add: n_def decimal_digit)
    then show ?thesis
      unfolding n_def[symmetric] s by (simp add: padStart_def digit_char_0 True)
  next
    case False
    then have ge: "\<not> n < 10" by (simp add: n_def)
    have dv: "n div 10 = int a" "nat (n mod 10) = b" using assms by (simp_all add: n_def)
    have "decimal n = decimal (int a) @ [digit_char b]"
      using ge by (simp add: decimal.simps[of n] dv)
    then have "decimal n = [digit_char a, digit_char b]"
      using assms(1) by (simp add: decimal_digit)
    then show ?thesis
      unfolding n_def[symmetric] s by (simp add: padStart_def)
  qed
qed

lemma parse_two_digits:
  assumes "a < 10" "b < 10"
  shows "js_Number [digit_char a, digit_char b] = Some (int (10 * a + b))"
  using assms by (simp add: js_Number_def is_digit_digit_char digit_val_digit_char)

lemma split_HHMM:
  assumes "a < 10" "b < 10" "c < 10" "d < 10"
  shows "split_on CHR '':'' [digit_char a, digit_char b, CHR '':'', digit_char c, digit_char d]
       = [digit_char a, digit_char b] # [digit_char c, digit_char d] # []"
  using assms by (simp add: digit_char_not_colon)


lemma HourFromTime_minutes: "HourFromTime (z * msPerMinute) = (z div 60) mod 24"
proof -
  have "(60000 * z) div (60000 * 60) = z div 60" by (rule div_mult_mult1) simp
  then show ?thesis by (simp add: HourFromTime_def msPerMinute_def msPerHour_def mult.commute)
qed

lemma MinFromTime_minutes: "MinFromTime (z * msPerMinute) = z mod 60"
  by (simp add: MinFromTime_def msPerMinute_def)

lemma minute_of_day:
  fixes z :: int
  shows "60 * ((z div 60) mod 24) + z mod 60 = z mod 1440"
  using zmod_zmult2_eq[of 24 z 60] by simp

lemma hour_minute_unique:
  fixes z h m :: int
  assumes "0 \<le> h" "h < 24" "0 \<le> m" "m < 60" "z mod 1440 = 60 * h + m"
  shows "(z div 60) mod 24 = h" and "z mod 60 = m"
proof -
  have e: "60 * ((z div 60) mod 24) + z mod 60 = 60 * h + m"
    using minute_of_day[of z] assms(5) by simp
  have r: "0 \<le> z mod 60" "z mod 60 < 60" by simp_all
  show "(z div 60) mod 24 = h" using e r assms(1-4) by linarith
  then show "z mod 60 = m" using e by simp
qed

lemma setHours_at:
  assumes "tz now True = c"
    and "tz (MakeDate (Day (now + c * msPerMinute)) (MakeTime h m 0 0)) False = c"
  shows "setHours tz now h m 0 0
       = (1440 * Day (now + c * msPerMinute) + 60 * h + m - c) * msPerMinute"
proof -
  have l: "LocalTime tz now = now + c * msPerMinute" by (simp add: LocalTime_def assms(1))
  have "setHours tz now h m 0 0
      = MakeDate (Day (now + c * msPerMinute)) (MakeTime h m 0 0) - c * msPerMinute"
    unfolding setHours_def l UTC_def assms(2) ..
  then show ?thesis
    by (simp add: MakeDate_def MakeTime_def msPerMinute_def msPerHour_def msPerDay_def
        algebra_simps)
qed

lemma setUTCHours_local_at:
  assumes "tz (setUTCHours now h m 0 0) True = c"
  shows "LocalTime tz (setUTCHours now h m 0 0)
       = (1440 * Day now + 60 * h + m + c) * msPerMinute"
proof -
  have "LocalTime tz (setUTCHours now h m 0 0) = setUTCHours now h m 0 0 + c * msPerMinute"
    unfolding LocalTime_def assms ..
  then show ?thesis
    by (simp add: setUTCHours_def MakeDate_def MakeTime_def msPerMinute_def msPerHour_def
        msPerDay_def algebra_simps)
qed

lemma Day_MakeDate:
  assumes "0 \<le> h" "h < 24" "0 \<le> m" "m < 60"
  shows "Day (MakeDate d (MakeTime h m 0 0)) = d"
proof -
  define r where "r = h * 3600000 + m * 60000"
  have r: "0 \<le> r" "r < 86400000" using assms unfolding r_def by linarith+
  have "MakeDate d (MakeTime h m 0 0) = d * 86400000 + r"
    by (simp add: MakeDate_def MakeTime_def msPerMinute_def msPerHour_def msPerDay_def r_def)
  moreover have "(d * 86400000 + r) div 86400000 = d" using r by simp
  ultimately show ?thesis by (simp add: Day_def msPerDay_def)
qed

lemma Day_bounds:
  assumes "Day x = d"
  shows "d * msPerDay \<le> x" and "x < d * msPerDay + msPerDay"
proof -
  have e: "86400000 * (x div 86400000) + x mod 86400000 = x" by (rule mult_div_mod_eq)
  have r: "0 \<le> x mod 86400000" "x mod 86400000 < 86400000" by simp_all
  have d: "x div 86400000 = d" using assms by (simp add: Day_def msPerDay_def)
  show "d * msPerDay \<le> x" using e r(1) unfolding d msPerDay_def by linarith
  show "x < d * msPerDay + msPerDay" using e r(2) unfolding d msPerDay_def by linarith
qed

lemma render_HHMM:
  fixes h m :: int
  assumes "0 \<le> h" "h < 24" "0 \<le> m" "m < 60"
  shows "padStart 2 CHR ''0'' (js_String h) @ '':'' @ padStart 2 CHR ''0'' (js_String m)
       = HHMM (nat h div 10) (nat h mod 10) (nat m div 10) (nat m mod 10)"
proof -
  have "h = int (10 * (nat h div 10) + nat h mod 10)" using assms by simp
  moreover have "nat h div 10 < 10" using assms by (simp add: div_less_iff_less_mult) 
  ultimately have a: "padStart 2 CHR ''0'' (js_String h)
      = [digit_char (nat h div 10), digit_char (nat h mod 10)]"
    using render_two_digits[of "nat h div 10" "nat h mod 10"] by simp
  have "m = int (10 * (nat m div 10) + nat m mod 10)" using assms by simp
  moreover have "nat m div 10 < 10" using assms by (simp add: div_less_iff_less_mult) 
  ultimately have b: "padStart 2 CHR ''0'' (js_String m)
      = [digit_char (nat m div 10), digit_char (nat m mod 10)]"
    using render_two_digits[of "nat m div 10" "nat m mod 10"] by simp
  show ?thesis by (simp add: a b HHMM_def)
qed

lemma parse_HHMM:
  assumes "a < 10" "b < 10" "c < 10" "d < 10"
  shows "map js_Number (split_on CHR '':'' (HHMM a b c d))
       = [Some (int (10 * a + b)), Some (int (10 * c + d))]"
  unfolding HHMM_def split_HHMM[OF assms]
  using assms by (simp add: parse_two_digits del: of_nat_add of_nat_mult)

lemma wellformed_HHMM_obtain:
  assumes "wellformed_HHMM t"
  obtains a b c d where "a < 10" "b < 10" "c < 10" "d < 10" "t = HHMM a b c d"
    "10 * a + b < 24" "10 * c + d < 60"
proof -
  from assms obtain h1 h2 m1 m2 where t: "t = [h1, h2, CHR '':'', m1, m2]"
    and dg: "is_digit h1" "is_digit h2" "is_digit m1" "is_digit m2"
    and rg: "10 * digit_val h1 + digit_val h2 < 24" "10 * digit_val m1 + digit_val m2 < 60"
    by (auto simp: wellformed_HHMM_def split: list.splits)
  from dg obtain a b c d where d: "a < 10" "h1 = digit_char a" "b < 10" "h2 = digit_char b"
    "c < 10" "m1 = digit_char c" "d < 10" "m2 = digit_char d"
    by (metis is_digit_obtain)
  show thesis
  proof
    show "a < 10" "b < 10" "c < 10" "d < 10" using d by auto
    show "t = HHMM a b c d" using t d by (simp add: HHMM_def)
    show "10 * a + b < 24" "10 * c + d < 60" using rg d by (simp_all add: digit_val_digit_char)
  qed
qed

lemma localToUTC_at:
  fixes tz :: timezone and now c :: int and a b e d :: nat
  assumes t1: "tz now True = c"
    and t2: "tz (MakeDate (Day (now + c * msPerMinute))
                  (MakeTime (int (10 * a + b)) (int (10 * e + d)) 0 0)) False = c"
    and dg: "a < 10" "b < 10" "e < 10" "d < 10"
  defines "z \<equiv> 1440 * Day (now + c * msPerMinute) + 60 * int (10 * a + b)
                 + int (10 * e + d) - c"
  shows "localToUTC tz now (HHMM a b e d)
       = Some (padStart 2 CHR ''0'' (js_String ((z div 60) mod 24)) @ '':'' @
               padStart 2 CHR ''0'' (js_String (z mod 60)))"
  unfolding localToUTC_def parse_HHMM[OF dg]
  by (simp add: setHours_at[OF t1 t2] getUTCHours_def getUTCMinutes_def
      HourFromTime_minutes MinFromTime_minutes z_def del: of_nat_add of_nat_mult)

lemma utcToLocal_at:
  fixes tz :: timezone and now c :: int and a b e d :: nat
  assumes t3: "tz (setUTCHours now (int (10 * a + b)) (int (10 * e + d)) 0 0) True = c"
    and dg: "a < 10" "b < 10" "e < 10" "d < 10"
  defines "z \<equiv> 1440 * Day now + 60 * int (10 * a + b) + int (10 * e + d) + c"
  shows "utcToLocal tz now (HHMM a b e d)
       = Some (padStart 2 CHR ''0'' (js_String ((z div 60) mod 24)) @ '':'' @
               padStart 2 CHR ''0'' (js_String (z mod 60)))"
  unfolding utcToLocal_def parse_HHMM[OF dg]
  by (simp add: setUTCHours_local_at[where tz = tz and c = c, OF t3] getHours_def getMinutes_def
      HourFromTime_minutes MinFromTime_minutes z_def del: of_nat_add of_nat_mult)

lemma minute_of_day_shift:
  fixes z1 c d2 :: int
  shows "(1440 * d2 + 60 * ((z1 div 60) mod 24) + z1 mod 60 + c) mod 1440
       = (z1 mod 1440 + c) mod 1440"
proof -
  have "1440 * d2 + 60 * ((z1 div 60) mod 24) + z1 mod 60 + c = (z1 mod 1440 + c) + d2 * 1440"
    using minute_of_day[of z1] by simp
  then show ?thesis by (simp only: mod_mult_self1)
qed

lemma minute_of_day_cancel:
  fixes d1 h m c :: int
  shows "(1440 * d1 + 60 * h + m - c + c) mod 1440 = (60 * h + m) mod 1440"
proof -
  have "1440 * d1 + 60 * h + m - c + c = (60 * h + m) + d1 * 1440" by simp
  then show ?thesis by (simp only: mod_mult_self1)
qed

text \<open>
  C6. For every well-formed local time \<open>HH:MM\<close>, converting it to UTC and back gives the
  same string, provided the UTC offset is fixed for the current date: the offset is \<open>c\<close>
  minutes at the clock reading and at every local time of the clock's local date when
  \<open>localToUTC\<close> runs, and at every instant of the clock's UTC date when \<open>utcToLocal\<close>
  runs. The zone may change its offset on other dates, as a zone with daylight saving time
  does.
\<close>

theorem utcToLocal_localToUTC_roundtrip:
  fixes tz :: timezone and now1 now2 c :: int
  assumes wf: "wellformed_HHMM t"
    and u1: "tz now1 True = c"
    and l1: "\<And>x. Day x = Day (now1 + c * msPerMinute) \<Longrightarrow> tz x False = c"
    and u2: "\<And>x. Day x = Day now2 \<Longrightarrow> tz x True = c"
  shows "Option.bind (localToUTC tz now1 t) (utcToLocal tz now2) = Some t"
proof -
  from wf obtain a b e d where dg: "a < 10" "b < 10" "e < 10" "d < 10"
    and t: "t = HHMM a b e d" and rg: "10 * a + b < 24" "10 * e + d < 60"
    by (rule wellformed_HHMM_obtain)
  define h m where "h = int (10 * a + b)" and "m = int (10 * e + d)"
  have hm: "0 \<le> h" "h < 24" "0 \<le> m" "m < 60" using rg by (simp_all add: h_def m_def)
  define z1 where "z1 = 1440 * Day (now1 + c * msPerMinute) + 60 * h + m - c"
  define h' m' where "h' = (z1 div 60) mod 24" and "m' = z1 mod 60"
  have hm': "0 \<le> h'" "h' < 24" "0 \<le> m'" "m' < 60" by (simp_all add: h'_def m'_def)
  define a' b' e' d' where "a' = nat h' div 10" and "b' = nat h' mod 10"
    and "e' = nat m' div 10" and "d' = nat m' mod 10"
  have dg': "a' < 10" "b' < 10" "e' < 10" "d' < 10"
    using hm' by (simp_all add: a'_def b'_def e'_def d'_def div_less_iff_less_mult)
  have dv: "int (10 * a' + b') = h'" "int (10 * e' + d') = m'"
    using hm' by (simp_all add: a'_def b'_def e'_def d'_def)
  note t1 = u1
  have t2: "tz (MakeDate (Day (now1 + c * msPerMinute))
                 (MakeTime (int (10 * a + b)) (int (10 * e + d)) 0 0)) False = c"
    using Day_MakeDate[OF hm] unfolding h_def m_def by (rule l1)
  have t3: "tz (setUTCHours now2 (int (10 * a' + b')) (int (10 * e' + d')) 0 0) True = c"
    unfolding dv setUTCHours_def using Day_MakeDate[OF hm'] by (rule u2)
  have "localToUTC tz now1 t
      = Some (padStart 2 CHR ''0'' (js_String h') @ '':'' @ padStart 2 CHR ''0'' (js_String m'))"
    unfolding t localToUTC_at[OF t1 t2 dg] h'_def m'_def z1_def h_def m_def ..
  then have step1: "localToUTC tz now1 t = Some (HHMM a' b' e' d')"
    unfolding render_HHMM[OF hm'] a'_def b'_def e'_def d'_def .
  define z2 where "z2 = 1440 * Day now2 + 60 * h' + m' + c"
  have "z2 mod 1440 = (z1 mod 1440 + c) mod 1440"
    unfolding z2_def h'_def m'_def by (rule minute_of_day_shift)
  also have "\<dots> = (z1 + c) mod 1440" by (simp add: mod_add_left_eq)
  also have "\<dots> = (60 * h + m) mod 1440" unfolding z1_def by (rule minute_of_day_cancel)
  also have "\<dots> = 60 * h + m" using hm by simp
  finally have z2: "z2 mod 1440 = 60 * h + m" .
  have res: "(z2 div 60) mod 24 = h" "z2 mod 60 = m"
    using hour_minute_unique[OF hm z2] by simp_all
  have ab: "nat h div 10 = a" "nat h mod 10 = b" "nat m div 10 = e" "nat m mod 10 = d"
    using dg by (simp_all add: h_def m_def del: of_nat_add of_nat_mult)
  have "utcToLocal tz now2 (HHMM a' b' e' d')
      = Some (padStart 2 CHR ''0'' (js_String ((z2 div 60) mod 24)) @ '':'' @
              padStart 2 CHR ''0'' (js_String (z2 mod 60)))"
    unfolding utcToLocal_at[where tz = tz and c = c, OF t3 dg'] dv z2_def ..
  then have step2: "utcToLocal tz now2 (HHMM a' b' e' d') = Some t"
    unfolding res render_HHMM[OF hm] ab t .
  show ?thesis by (simp add: step1 step2)
qed

theorem utcToLocal_localToUTC_roundtrip_witness:
  "wellformed_HHMM ''23:00''
   \<and> newYork2024 1718452800000 True = - 240
   \<and> newYork2024 1704110400000 True = - 300
   \<and> localToUTC newYork2024 1718452800000 ''23:00'' = Some ''03:00''
   \<and> Option.bind (localToUTC newYork2024 1718452800000 ''23:00'')
        (utcToLocal newYork2024 1718453100000) = Some ''23:00''"
proof -
  have wf: "wellformed_HHMM ''23:00''" by code_simp
  have z: "newYork2024 1718452800000 True = - 240" "newYork2024 1704110400000 True = - 300"
    by (simp_all add: newYork2024_def)
  have l: "localToUTC newYork2024 1718452800000 ''23:00'' = Some ''03:00''" by code_simp
  have d1: "Day 1718452800000 = 19889" "Day (1718452800000 + - 240 * msPerMinute) = 19889"
    "Day 1718453100000 = 19889"
    by (simp_all add: Day_def msPerDay_def msPerMinute_def)
  have u: "newYork2024 x True = - 240" if "Day x = 19889" for x
    using Day_bounds[OF that] by (simp add: newYork2024_def msPerDay_def)
  have lo: "newYork2024 x False = - 240" if "Day x = 19889" for x
    using Day_bounds[OF that] by (simp add: newYork2024_def msPerDay_def msPerMinute_def)
  have "Option.bind (localToUTC newYork2024 1718452800000 ''23:00'')
        (utcToLocal newYork2024 1718453100000) = Some ''23:00''"
    by (rule utcToLocal_localToUTC_roundtrip[OF wf, where c = "- 240"])
      (simp_all only: d1 u lo z)
  then show ?thesis using wf z l by simp
qed

section \<open>Schedule resolution\<close>

lemma maximum_Max: "xs \<noteq> [] \<Longrightarrow> maximum xs = Some (Max (set xs))"
proof (induction xs)
  case Nil
  then show ?case by simp
next
  case (Cons x xs)
  show ?case
  proof (cases "xs = []")
    case True
    then show ?thesis by simp
  next
    case False
    with Cons.IH have "maximum xs = Some (Max (set xs))" by simp
    then show ?thesis using False by simp
  qed
qed

lemma minimum_Min: "xs \<noteq> [] \<Longrightarrow> minimum xs = Some (Min (set xs))"
proof (induction xs)
  case Nil
  then show ?case by simp
next
  case (Cons x xs)
  show ?case
  proof (cases "xs = []")
    case True
    then show ?thesis by simp
  next
    case False
    with Cons.IH have "minimum xs = Some (Min (set xs))" by simp
    then show ?thesis using False by simp
  qed
qed

lemma minimum_None: "minimum xs = None \<longleftrightarrow> xs = []"
  by (cases xs) (auto split: option.splits)

lemma resolve_running:
  assumes "\<exists>oc \<in> set (expand schedules now). covers now oc"
  shows "is_currently_running (resolve schedules now)"
    and "current_end (resolve schedules now)
         = Some (Max (occ_end ` {oc \<in> set (expand schedules now). covers now oc}))"
    and "next_start (resolve schedules now) = None"
proof -
  let ?running = "filter (covers now) (expand schedules now)"
  have ne: "?running \<noteq> []" using assms by (auto simp: filter_empty_conv)
  then have r: "resolve schedules now = \<lparr>is_currently_running = True,
       current_end = maximum (map occ_end ?running), next_start = None\<rparr>"
    by (simp add: resolve_def Let_def)
  show "is_currently_running (resolve schedules now)" by (simp add: r)
  show "next_start (resolve schedules now) = None" by (simp add: r)
  have "map occ_end ?running \<noteq> []" using ne by simp
  then have "maximum (map occ_end ?running) = Some (Max (set (map occ_end ?running)))"
    by (rule maximum_Max)
  then show "current_end (resolve schedules now)
         = Some (Max (occ_end ` {oc \<in> set (expand schedules now). covers now oc}))"
    by (simp add: r)
qed

lemma resolve_idle:
  assumes "\<not> (\<exists>oc \<in> set (expand schedules now). covers now oc)"
  shows "\<not> is_currently_running (resolve schedules now)"
    and "next_start (resolve schedules now)
         = (if \<exists>oc \<in> set (expand schedules now). now < occ_start oc
            then Some (Min (occ_start ` {oc \<in> set (expand schedules now). now < occ_start oc}))
            else None)"
proof -
  let ?running = "filter (covers now) (expand schedules now)"
  let ?upcoming = "filter (\<lambda>oc. now < occ_start oc) (expand schedules now)"
  have "?running = []" using assms by (auto simp: filter_empty_conv)
  then have r: "resolve schedules now = \<lparr>is_currently_running = False,
       current_end = None, next_start = minimum (map occ_start ?upcoming)\<rparr>"
    by (simp add: resolve_def Let_def)
  show "\<not> is_currently_running (resolve schedules now)" by (simp add: r)
  show "next_start (resolve schedules now)
         = (if \<exists>oc \<in> set (expand schedules now). now < occ_start oc
            then Some (Min (occ_start ` {oc \<in> set (expand schedules now). now < occ_start oc}))
            else None)"
  proof (cases "\<exists>oc \<in> set (expand schedules now). now < occ_start oc")
    case True
    then have "map occ_start ?upcoming \<noteq> []" by (auto simp: filter_empty_conv)
    then have "minimum (map occ_start ?upcoming) = Some (Min (set (map occ_start ?upcoming)))"
      by (rule minimum_Min)
    then show ?thesis using True by (simp add: r)
  next
    case False
    then have "?upcoming = []" by (auto simp: filter_empty_conv)
    then show ?thesis using False by (simp add: r)
  qed
qed

lemma isDayActive_zero: "isDayActive 0 b = False"
  by (simp add: isDayActive_def js_bitand_def ToInt32_def)

lemma generate_empty_mask: "days_of_week s = 0 \<Longrightarrow> generate s now = []"
  by (simp add: generate_def isDayActive_zero)

lemma expand_empty_mask:
  "\<forall>s \<in> set schedules. days_of_week s = 0 \<Longrightarrow> expand schedules now = []"
  by (induction schedules) (simp_all add: expand_def generate_empty_mask)

lemma resolve_no_occurrence:
  "expand schedules now = [] \<Longrightarrow> resolve schedules now
     = \<lparr>is_currently_running = False, current_end = None, next_start = None\<rparr>"
  by (simp add: resolve_def)

lemma tuesday_obtain:
  assumes "weekday_index d = 1"
  obtains w where "d = 7 * w + 5"
proof
  have "(d + 3) mod 7 = 1" using assms by (simp add: weekday_index_def nat_eq_iff)
  then have "7 * ((d + 3) div 7) + 1 = d + 3" using mult_div_mod_eq[of 7 "d + 3"] by simp
  then show "d = 7 * ((d + 3) div 7 - 1) + 5" by simp
qed

lemma weekday_index_week: "weekday_index (7 * w + j) = weekday_index j"
proof -
  have "7 * w + j + 3 = (j + 3) + w * 7" by simp
  then have "(7 * w + j + 3) mod 7 = (j + 3) mod 7" by (simp only: mod_mult_self1)
  then show ?thesis by (simp add: weekday_index_def)
qed

lemma Day_of: "0 \<le> r \<Longrightarrow> r < msPerDay \<Longrightarrow> Day (d * msPerDay + r) = d"
  by (simp add: Day_def msPerDay_def)

lemma isDayActive_mon: "isDayActive 1 (weekday_bit j) \<longleftrightarrow> weekday_index j = 0"
proof -
  have "isDayActive 1 (2 ^ weekday_index j) = bit (1::int) (weekday_index j)"
    by (rule isDayActive_bit) simp_all
  then show ?thesis by (simp add: weekday_bit_def bit_1_iff)
qed

lemma upto_window: "[-1..7::int] = [-1, 0, 1, 2, 3, 4, 5, 6, 7]"
  by code_simp

lemma generate_mon_only_tuesday:
  assumes "days_of_week s = 1" "0 \<le> r" "r < msPerDay"
  shows "generate s ((7 * w + 5) * msPerDay + r)
       = [occurrence_on s (7 * w + 4), occurrence_on s (7 * w + 11)]"
proof -
  have wd: "weekday_index (7 * w + 4) = 0" "weekday_index (7 * w + 5) \<noteq> 0"
    "weekday_index (7 * w + 6) \<noteq> 0" "weekday_index (7 * w + 7) \<noteq> 0"
    "weekday_index (7 * w + 8) \<noteq> 0" "weekday_index (7 * w + 9) \<noteq> 0"
    "weekday_index (7 * w + 10) \<noteq> 0" "weekday_index (7 * w + 11) = 0"
    "weekday_index (7 * w + 12) \<noteq> 0"
    unfolding weekday_index_week by (simp_all add: weekday_index_def)
  have days: "map (\<lambda>k. (7 * w + 5) + k) [-1..7]
      = [7 * w + 4, 7 * w + 5, 7 * w + 6, 7 * w + 7, 7 * w + 8, 7 * w + 9, 7 * w + 10,
         7 * w + 11, 7 * w + 12]"
    by (simp add: upto_window)
  have "filter (\<lambda>day. isDayActive 1 (weekday_bit day)) (map (\<lambda>k. (7 * w + 5) + k) [-1..7])
      = [7 * w + 4, 7 * w + 11]"
    unfolding days isDayActive_mon by (simp only: filter.simps wd if_True if_False refl simp_thms)
  then show ?thesis
    by (simp add: generate_def Day_of[OF assms(2,3)] assms(1) Let_def)
qed


lemma expand_single: "enabled s \<Longrightarrow> expand [s] now = generate s now"
  by (simp add: expand_def)

lemma resolve_mon_tuesday_0300:
  assumes "weekday_index d = 1" "enabled s" "days_of_week s = 1" "start_time_utc s = (22, 0)"
    "duration_minutes s = 600"
  defines "T \<equiv> d * msPerDay + 3 * msPerHour"
  shows "resolve [s] T
       = \<lparr>is_currently_running = True, current_end = Some (d * msPerDay + 8 * msPerHour),
          next_start = None\<rparr>"
proof -
  obtain w where d: "d = 7 * w + 5" using assms(1) by (rule tuesday_obtain)
  have r: "(0::int) \<le> 3 * msPerHour" "3 * msPerHour < msPerDay"
    by (simp_all add: msPerDay_def msPerHour_def)
  have e: "expand [s] T = [occurrence_on s (7 * w + 4), occurrence_on s (7 * w + 11)]"
    unfolding expand_single[OF assms(2)] d T_def
    by (rule generate_mon_only_tuesday[OF assms(3) r])
  have c: "covers T (occurrence_on s (7 * w + 4))" "\<not> covers T (occurrence_on s (7 * w + 11))"
    by (simp_all add: covers_def occurrence_on_def assms(4,5) d T_def
        MakeDate_def MakeTime_def msPerDay_def msPerHour_def msPerMinute_def)
  have en: "occ_end (occurrence_on s (7 * w + 4)) = d * msPerDay + 8 * msPerHour"
    by (simp add: occurrence_on_def assms(4,5) d
        MakeDate_def MakeTime_def msPerDay_def msPerHour_def msPerMinute_def)
  have f: "filter (covers T) (expand [s] T) = [occurrence_on s (7 * w + 4)]"
    unfolding e by (simp only: filter.simps c if_True if_False)
  show ?thesis by (simp add: resolve_def f en)
qed

lemma resolve_mon_tuesday_0900:
  assumes "weekday_index d = 1" "enabled s" "days_of_week s = 1" "start_time_utc s = (22, 0)"
    "duration_minutes s = 600"
  defines "T \<equiv> d * msPerDay + 9 * msPerHour"
  shows "resolve [s] T
       = \<lparr>is_currently_running = False, current_end = None,
          next_start = Some ((d + 6) * msPerDay + 22 * msPerHour)\<rparr>"
    and "weekday_index (d + 6) = 0"
proof -
  obtain w where d: "d = 7 * w + 5" using assms(1) by (rule tuesday_obtain)
  have r: "(0::int) \<le> 9 * msPerHour" "9 * msPerHour < msPerDay"
    by (simp_all add: msPerDay_def msPerHour_def)
  have e: "expand [s] T = [occurrence_on s (7 * w + 4), occurrence_on s (7 * w + 11)]"
    unfolding expand_single[OF assms(2)] d T_def
    by (rule generate_mon_only_tuesday[OF assms(3) r])
  have c: "\<not> covers T (occurrence_on s (7 * w + 4))" "\<not> covers T (occurrence_on s (7 * w + 11))"
    by (simp_all add: covers_def occurrence_on_def assms(4,5) d T_def
        MakeDate_def MakeTime_def msPerDay_def msPerHour_def msPerMinute_def)
  have u: "\<not> T < occ_start (occurrence_on s (7 * w + 4))"
    "T < occ_start (occurrence_on s (7 * w + 11))"
    by (simp_all add: occurrence_on_def assms(4,5) d T_def
        MakeDate_def MakeTime_def msPerDay_def msPerHour_def msPerMinute_def)
  have st: "occ_start (occurrence_on s (7 * w + 11)) = (d + 6) * msPerDay + 22 * msPerHour"
    by (simp add: occurrence_on_def assms(4,5) d
        MakeDate_def MakeTime_def msPerDay_def msPerHour_def msPerMinute_def)
  have f: "filter (covers T) (expand [s] T) = []"
    unfolding e by (simp only: filter.simps c if_True if_False)
  have f2: "filter (\<lambda>oc. T < occ_start oc) (expand [s] T) = [occurrence_on s (7 * w + 11)]"
    unfolding e by (simp only: filter.simps u if_True if_False)
  show "resolve [s] T
       = \<lparr>is_currently_running = False, current_end = None,
          next_start = Some ((d + 6) * msPerDay + 22 * msPerHour)\<rparr>"
    by (simp add: resolve_def f f2 st)
  have "weekday_index (7 * w + 11) = 0"
    unfolding weekday_index_week by (simp add: weekday_index_def)
  moreover have "d + 6 = 7 * w + 11" by (simp add: d)
  ultimately show "weekday_index (d + 6) = 0" by (simp only:)
qed

lemma resolve_two_overlapping:
  assumes "weekday_index d = 1"
    "enabled s1" "days_of_week s1 = 1" "start_time_utc s1 = (22, 0)" "duration_minutes s1 = 600"
    "enabled s2" "days_of_week s2 = 1" "start_time_utc s2 = (23, 0)" "duration_minutes s2 = 420"
  defines "T \<equiv> d * msPerDay + 5 * msPerHour"
  shows "occ_end ` {oc \<in> set (expand [s1, s2] T). covers T oc}
       = {T + 1 * msPerHour, T + 3 * msPerHour}"
    and "current_end (resolve [s1, s2] T) = Some (T + 3 * msPerHour)"
proof -
  obtain w where d: "d = 7 * w + 5" using assms(1) by (rule tuesday_obtain)
  have r: "(0::int) \<le> 5 * msPerHour" "5 * msPerHour < msPerDay"
    by (simp_all add: msPerDay_def msPerHour_def)
  have g: "generate s1 T = [occurrence_on s1 (7 * w + 4), occurrence_on s1 (7 * w + 11)]"
    "generate s2 T = [occurrence_on s2 (7 * w + 4), occurrence_on s2 (7 * w + 11)]"
    unfolding d T_def by (rule generate_mon_only_tuesday[OF _ r], fact)+
  have e: "expand [s1, s2] T = [occurrence_on s1 (7 * w + 4), occurrence_on s1 (7 * w + 11),
       occurrence_on s2 (7 * w + 4), occurrence_on s2 (7 * w + 11)]"
    by (simp add: expand_def assms(2,6) g)
  have c: "covers T (occurrence_on s1 (7 * w + 4))" "\<not> covers T (occurrence_on s1 (7 * w + 11))"
     "covers T (occurrence_on s2 (7 * w + 4))" "\<not> covers T (occurrence_on s2 (7 * w + 11))"
    by (simp_all add: covers_def occurrence_on_def assms(4,5,8,9) d T_def
        MakeDate_def MakeTime_def msPerDay_def msPerHour_def msPerMinute_def)
  have en: "occ_end (occurrence_on s1 (7 * w + 4)) = T + 3 * msPerHour"
    "occ_end (occurrence_on s2 (7 * w + 4)) = T + 1 * msPerHour"
    by (simp_all add: occurrence_on_def assms(4,5,8,9) d T_def
        MakeDate_def MakeTime_def msPerDay_def msPerHour_def msPerMinute_def)
  have f: "filter (covers T) (expand [s1, s2] T)
      = [occurrence_on s1 (7 * w + 4), occurrence_on s2 (7 * w + 4)]"
    unfolding e by (simp only: filter.simps c if_True if_False)
  have "{oc \<in> set (expand [s1, s2] T). covers T oc} = set (filter (covers T) (expand [s1, s2] T))"
    by simp
  then show "occ_end ` {oc \<in> set (expand [s1, s2] T). covers T oc}
       = {T + 1 * msPerHour, T + 3 * msPerHour}"
    unfolding f by (auto simp: en)
  show "current_end (resolve [s1, s2] T) = Some (T + 3 * msPerHour)"
    by (simp add: resolve_def f en msPerHour_def)
qed

text \<open>
  C1. For every list of schedules and every instant \<open>now\<close>: if some occurrence generated
  from the enabled schedules satisfies \<open>start \<le> now < end\<close>, then \<open>resolve\<close> reports
  that a window is running, \<open>current_end\<close> is the maximum end over the occurrences
  covering \<open>now\<close>, and \<open>next_start\<close> is unset. For a Monday-only schedule from 22:00 UTC
  for 600 minutes and \<open>now\<close> at 03:00 UTC on any Tuesday \<open>d\<close>, \<open>current_end\<close> is 08:00
  UTC of that Tuesday. For two Monday-only schedules whose windows both cover
  \<open>T\<close> = Tuesday 05:00 UTC and end at \<open>T + 1h\<close> and \<open>T + 3h\<close>, \<open>current_end\<close> is
  \<open>T + 3h\<close>.
\<close>

theorem resolve_running_latest_end:
  "((\<exists>oc \<in> set (expand schedules now). covers now oc) \<longrightarrow>
      is_currently_running (resolve schedules now)
      \<and> current_end (resolve schedules now)
          = Some (Max (occ_end ` {oc \<in> set (expand schedules now). covers now oc}))
      \<and> next_start (resolve schedules now) = None)
   \<and> (weekday_index d = 1 \<and> enabled s \<and> days_of_week s = 1 \<and> start_time_utc s = (22, 0)
        \<and> duration_minutes s = 600 \<longrightarrow>
      resolve [s] (d * msPerDay + 3 * msPerHour)
        = \<lparr>is_currently_running = True,
           current_end = Some (d * msPerDay + 8 * msPerHour),
           next_start = None\<rparr>)
   \<and> (weekday_index d = 1
        \<and> enabled s1 \<and> days_of_week s1 = 1 \<and> start_time_utc s1 = (22, 0)
        \<and> duration_minutes s1 = 600
        \<and> enabled s2 \<and> days_of_week s2 = 1 \<and> start_time_utc s2 = (23, 0)
        \<and> duration_minutes s2 = 420 \<longrightarrow>
      occ_end ` {oc \<in> set (expand [s1, s2] (d * msPerDay + 5 * msPerHour)).
                  covers (d * msPerDay + 5 * msPerHour) oc}
        = {d * msPerDay + 5 * msPerHour + 1 * msPerHour,
           d * msPerDay + 5 * msPerHour + 3 * msPerHour}
      \<and> current_end (resolve [s1, s2] (d * msPerDay + 5 * msPerHour))
          = Some (d * msPerDay + 5 * msPerHour + 3 * msPerHour))"
proof (intro conjI impI)
  assume a: "\<exists>oc \<in> set (expand schedules now). covers now oc"
  show "is_currently_running (resolve schedules now)" by (rule resolve_running(1)[OF a])
  show "current_end (resolve schedules now)
          = Some (Max (occ_end ` {oc \<in> set (expand schedules now). covers now oc}))"
    by (rule resolve_running(2)[OF a])
  show "next_start (resolve schedules now) = None" by (rule resolve_running(3)[OF a])
next
  assume "weekday_index d = 1 \<and> enabled s \<and> days_of_week s = 1 \<and> start_time_utc s = (22, 0)
        \<and> duration_minutes s = 600"
  then show "resolve [s] (d * msPerDay + 3 * msPerHour)
        = \<lparr>is_currently_running = True,
           current_end = Some (d * msPerDay + 8 * msPerHour),
           next_start = None\<rparr>"
    by (intro resolve_mon_tuesday_0300) simp_all
next
  assume b: "weekday_index d = 1
        \<and> enabled s1 \<and> days_of_week s1 = 1 \<and> start_time_utc s1 = (22, 0)
        \<and> duration_minutes s1 = 600
        \<and> enabled s2 \<and> days_of_week s2 = 1 \<and> start_time_utc s2 = (23, 0)
        \<and> duration_minutes s2 = 420"
  from b show "occ_end ` {oc \<in> set (expand [s1, s2] (d * msPerDay + 5 * msPerHour)).
                  covers (d * msPerDay + 5 * msPerHour) oc}
        = {d * msPerDay + 5 * msPerHour + 1 * msPerHour,
           d * msPerDay + 5 * msPerHour + 3 * msPerHour}"
    by (intro resolve_two_overlapping(1)) simp_all
  from b show "current_end (resolve [s1, s2] (d * msPerDay + 5 * msPerHour))
          = Some (d * msPerDay + 5 * msPerHour + 3 * msPerHour)"
    by (intro resolve_two_overlapping(2)) simp_all
qed

theorem resolve_running_latest_end_witness:
  "(\<exists>oc \<in> set (expand [monday_night, monday_late] (5 * msPerDay + 5 * msPerHour)).
      covers (5 * msPerDay + 5 * msPerHour) oc)
   \<and> is_currently_running (resolve [monday_night, monday_late] (5 * msPerDay + 5 * msPerHour))
   \<and> next_start (resolve [monday_night, monday_late] (5 * msPerDay + 5 * msPerHour)) = None
   \<and> weekday_index 5 = 1
   \<and> resolve [monday_night] (5 * msPerDay + 3 * msPerHour)
       = \<lparr>is_currently_running = True,
          current_end = Some (5 * msPerDay + 8 * msPerHour),
          next_start = None\<rparr>
   \<and> current_end (resolve [monday_night, monday_late] (5 * msPerDay + 5 * msPerHour))
       = Some (5 * msPerDay + 5 * msPerHour + 3 * msPerHour)"
proof -
  have h1: "\<exists>oc \<in> set (expand [monday_night, monday_late] (5 * msPerDay + 5 * msPerHour)).
      covers (5 * msPerDay + 5 * msPerHour) oc"
    by code_simp
  have h2: "weekday_index 5 = 1" by code_simp
  have h3: "enabled monday_night \<and> days_of_week monday_night = 1
      \<and> start_time_utc monday_night = (22, 0) \<and> duration_minutes monday_night = 600
      \<and> enabled monday_late \<and> days_of_week monday_late = 1
      \<and> start_time_utc monday_late = (23, 0) \<and> duration_minutes monday_late = 420"
    by (simp add: monday_night_def monday_late_def)
  show ?thesis
    using h1 h2 h3
      resolve_running_latest_end[of "[monday_night, monday_late]"
        "5 * msPerDay + 5 * msPerHour" 5 monday_night monday_night monday_late]
    by blast
qed

text \<open>
  C2. For every list of schedules and every instant \<open>now\<close>: if no occurrence generated
  from the enabled schedules covers \<open>now\<close>, then \<open>resolve\<close> reports that nothing is
  running and \<open>next_start\<close> is the minimum start among the generated occurrences that
  start after \<open>now\<close>; \<open>next_start\<close> is unset exactly when there is no such occurrence.
  Schedules with \<open>days_of_week = 0\<close> give not running and no next start at every
  \<open>now\<close>. The Monday-only schedule from 22:00 UTC for 600 minutes, asked at 09:00 UTC on
  any Tuesday \<open>d\<close>, gives \<open>next_start\<close> = 22:00 UTC on day \<open>d + 6\<close>, the next Monday.
\<close>

theorem resolve_idle_next_start:
  "(\<not> (\<exists>oc \<in> set (expand schedules now). covers now oc) \<longrightarrow>
      \<not> is_currently_running (resolve schedules now)
      \<and> next_start (resolve schedules now)
          = (if \<exists>oc \<in> set (expand schedules now). now < occ_start oc
             then Some (Min (occ_start ` {oc \<in> set (expand schedules now). now < occ_start oc}))
             else None)
      \<and> (next_start (resolve schedules now) = None
           \<longleftrightarrow> \<not> (\<exists>oc \<in> set (expand schedules now). now < occ_start oc)))
   \<and> ((\<forall>z \<in> set zs. days_of_week z = 0) \<longrightarrow>
      \<not> is_currently_running (resolve zs now) \<and> next_start (resolve zs now) = None)
   \<and> (weekday_index d = 1 \<and> enabled s \<and> days_of_week s = 1 \<and> start_time_utc s = (22, 0)
        \<and> duration_minutes s = 600 \<longrightarrow>
      resolve [s] (d * msPerDay + 9 * msPerHour)
        = \<lparr>is_currently_running = False,
           current_end = None,
           next_start = Some ((d + 6) * msPerDay + 22 * msPerHour)\<rparr>
      \<and> weekday_index (d + 6) = 0)"
proof (intro conjI impI)
  assume a: "\<not> (\<exists>oc \<in> set (expand schedules now). covers now oc)"
  show "\<not> is_currently_running (resolve schedules now)" by (rule resolve_idle(1)[OF a])
  show n: "next_start (resolve schedules now)
          = (if \<exists>oc \<in> set (expand schedules now). now < occ_start oc
             then Some (Min (occ_start ` {oc \<in> set (expand schedules now). now < occ_start oc}))
             else None)"
    by (rule resolve_idle(2)[OF a])
  show "next_start (resolve schedules now) = None
           \<longleftrightarrow> \<not> (\<exists>oc \<in> set (expand schedules now). now < occ_start oc)"
    unfolding n by simp
next
  assume "\<forall>z \<in> set zs. days_of_week z = 0"
  then have "expand zs now = []" by (rule expand_empty_mask)
  then have r: "resolve zs now
     = \<lparr>is_currently_running = False, current_end = None, next_start = None\<rparr>"
    by (rule resolve_no_occurrence)
  show "\<not> is_currently_running (resolve zs now)" by (simp add: r)
  show "next_start (resolve zs now) = None" by (simp add: r)
next
  assume b: "weekday_index d = 1 \<and> enabled s \<and> days_of_week s = 1 \<and> start_time_utc s = (22, 0)
        \<and> duration_minutes s = 600"
  from b show "resolve [s] (d * msPerDay + 9 * msPerHour)
        = \<lparr>is_currently_running = False,
           current_end = None,
           next_start = Some ((d + 6) * msPerDay + 22 * msPerHour)\<rparr>"
    by (intro resolve_mon_tuesday_0900(1)) simp_all
  from b show "weekday_index (d + 6) = 0"
    by (intro resolve_mon_tuesday_0900(2)[of d s]) simp_all
qed

theorem resolve_idle_next_start_witness:
  "filter (covers (5 * msPerDay + 9 * msPerHour))
      (expand [monday_night] (5 * msPerDay + 9 * msPerHour)) = []
   \<and> days_of_week (monday_night\<lparr>days_of_week := 0\<rparr>) = 0
   \<and> \<not> is_currently_running
         (resolve [monday_night\<lparr>days_of_week := 0\<rparr>] (5 * msPerDay + 9 * msPerHour))
   \<and> next_start (resolve [monday_night\<lparr>days_of_week := 0\<rparr>] (5 * msPerDay + 9 * msPerHour))
       = None
   \<and> weekday_index 5 = 1
   \<and> \<not> is_currently_running (resolve [monday_night] (5 * msPerDay + 9 * msPerHour))
   \<and> resolve [monday_night] (5 * msPerDay + 9 * msPerHour)
       = \<lparr>is_currently_running = False,
          current_end = None,
          next_start = Some ((5 + 6) * msPerDay + 22 * msPerHour)\<rparr>"
proof -
  have h0: "filter (covers (5 * msPerDay + 9 * msPerHour))
      (expand [monday_night] (5 * msPerDay + 9 * msPerHour)) = []"
    by code_simp
  then have h1: "\<not> (\<exists>oc \<in> set (expand [monday_night] (5 * msPerDay + 9 * msPerHour)).
        covers (5 * msPerDay + 9 * msPerHour) oc)"
    by (simp add: filter_empty_conv)
  have h2: "weekday_index 5 = 1" by code_simp
  have h3: "enabled monday_night \<and> days_of_week monday_night = 1
      \<and> start_time_utc monday_night = (22, 0) \<and> duration_minutes monday_night = 600"
    by (simp add: monday_night_def)
  have h4: "days_of_week (monday_night\<lparr>days_of_week := 0\<rparr>) = 0" by simp
  then have h5: "\<forall>z \<in> set [monday_night\<lparr>days_of_week := 0\<rparr>]. days_of_week z = 0" by simp
  show ?thesis
    using h0 h1 h2 h3 h4 h5
      resolve_idle_next_start[of "[monday_night]" "5 * msPerDay + 9 * msPerHour"
        "[monday_night\<lparr>days_of_week := 0\<rparr>]" 5 monday_night]
    by blast
qed

end
